theory Spec2Isabelle
  imports Main "HOL-Library.Word"
begin

section \<open>fastq\_pair: pairing two FASTQ streams through a chained hash index\<close>

text \<open>
  The development embeds \<^verbatim>\<open>src/fastq_pair.c\<close>: the body of \<^verbatim>\<open>pair_files\<close> (the
  index-building loop over the first file, the matching loop over the second file and the
  final sweep that prints the unprinted entries) and \<^verbatim>\<open>hash\<close>.

  A file is its sequence of bytes together with a read position; the one line buffer
  \<^verbatim>\<open>line\<close> is threaded through every read, because a read that fails leaves it as it
  was. An output file is the sequence of strings handed to \<^verbatim>\<open>writeToFile\<close>, in order; its
  bytes are the concatenation. Reading below index 0 of the buffer, writing past its end,
  dividing by a zero table size and following a pointer that was never initialised are
  undefined in C and are values of type \<open>error\<close> here.
\<close>

subsection \<open>C strings, \<^verbatim>\<open>fgets\<close> and the file helpers\<close>

datatype error = OutOfBounds | DivisionByZero | AllocationFailed | IndeterminatePointer

text \<open>The text of a buffer is what precedes its first NUL byte.\<close>

definition c_str :: "string \<Rightarrow> string" where
  "c_str bytes = takeWhile (\<lambda>c. c \<noteq> CHR 0x00) bytes"

text \<open>\<^verbatim>\<open>strcspn(s, reject)\<close>: the length of the longest prefix of \<open>s\<close> free of the
  characters of \<open>reject\<close>.\<close>

definition strcspn :: "string \<Rightarrow> string \<Rightarrow> nat" where
  "strcspn s reject = length (takeWhile (\<lambda>c. c \<notin> set reject) s)"

text \<open>\<^verbatim>\<open>fgets\<close> stores at most \<open>n - 1\<close> characters and stops after a newline.\<close>

fun take_line :: "nat \<Rightarrow> string \<Rightarrow> string" where
  "take_line 0 cs = []"
| "take_line (Suc k) [] = []"
| "take_line (Suc k) (c # cs) = (if c = CHR 0x0A then [c] else c # take_line k cs)"

text \<open>
  \<^verbatim>\<open>fgets(line, n, fp)\<close> on a file with bytes \<open>content\<close> read up to position \<open>p\<close>:
  \<open>None\<close> is the null pointer (end of file, nothing read, buffer unchanged); otherwise the
  new text of the buffer and the new position.
\<close>

definition fgets :: "nat \<Rightarrow> string \<Rightarrow> nat \<Rightarrow> (string \<times> nat) option" where
  "fgets n content p =
     (if length content \<le> p then None
      else let raw = take_line (n - 1) (drop p content)
           in Some (c_str raw, p + length raw))"

text \<open>
  \<^verbatim>\<open>readFromFile\<close> (the plain-file branch; \<^verbatim>\<open>gzgets\<close> has the same contract). The state is
  the file position and the text of the line buffer; the flag says whether the returned
  pointer is non-null.
\<close>

definition readFromFile :: "nat \<Rightarrow> string \<Rightarrow> nat \<times> string \<Rightarrow> bool \<times> nat \<times> string" where
  "readFromFile max_len content st =
     (case fgets max_len content (fst st) of
        None \<Rightarrow> (False, fst st, snd st)
      | Some (l, p) \<Rightarrow> (True, p, l))"

text \<open>\<^verbatim>\<open>writeToFile\<close> appends one string to an output file.\<close>

definition writeToFile :: "string list \<Rightarrow> string \<Rightarrow> string list" where
  "writeToFile out l = out @ [l]"

text \<open>Modelled from the spec: \<^verbatim>\<open>robstr.h\<close> (\<^verbatim>\<open>dupstr\<close>, \<^verbatim>\<open>catstr\<close>) is not among the
  sources; \<^verbatim>\<open>dupstr\<close> returns an owned copy of its argument and \<^verbatim>\<open>catstr\<close> the
  concatenation of its two arguments.\<close>

definition dupstr :: "string \<Rightarrow> string" where
  "dupstr s = s"

definition catstr :: "string \<Rightarrow> string \<Rightarrow> string" where
  "catstr a b = a @ b"

subsection \<open>Options, platform and the index entry\<close>

text \<open>
  \<^verbatim>\<open>struct options\<close> and \<^verbatim>\<open>struct idloc\<close> are declared in \<^verbatim>\<open>fastq_pair.h\<close>, which is
  not among the sources; the fields are those \<^verbatim>\<open>pair_files\<close> uses (\<^verbatim>\<open>verbose\<close> and
  \<^verbatim>\<open>print_table_counts\<close> only drive diagnostics on stderr and stdout). The \<^verbatim>\<open>next\<close>
  pointer of an entry is the tail of the list that holds it. The macro \<^verbatim>\<open>MAXLINELEN\<close>
  and the signedness of plain \<^verbatim>\<open>char\<close> are parameters.
\<close>

record options =
  tablesize :: int
  deduplicate :: bool
  splitspace :: bool
  formatid :: bool

record platform =
  MAXLINELEN :: nat
  char_signed :: bool

record idloc =
  id_str :: string
  pos :: int
  printed :: bool

subsection \<open>The identifier normalizer (lines 185--209 and 372--386)\<close>

text \<open>Writing NUL at index \<open>strcspn(line, reject)\<close> cuts the text there.\<close>

definition strip_line :: "bool \<Rightarrow> string \<Rightarrow> string" where
  "strip_line split_ws l =
     (let l1 = take (strcspn l [CHR 0x0A]) l
      in if split_ws then take (strcspn l1 [CHR '' '', CHR 0x09]) l1 else l1)"

text \<open>
  The mate-suffix rewrite on a buffer of \<open>cap\<close> bytes holding the text \<open>l\<close>. The two reads
  at \<open>strlen - 1\<close> and \<open>strlen - 2\<close> come first and are unconditional; the \<^verbatim>\<open>else\<close> belongs to
  the outer \<^verbatim>\<open>if\<close>, and writes at \<open>strlen + 1\<close> and then at \<open>strlen - 1\<close>.
\<close>

definition normalize_id :: "nat \<Rightarrow> string \<Rightarrow> error + string" where
  "normalize_id cap l =
     (let n = int (length l) in
      if n - 1 < 0 \<or> n - 2 < 0 then Inl OutOfBounds
      else
        let lastchar = l ! nat (n - 1); lastbutone = l ! nat (n - 2) in
        if CHR ''/'' = lastbutone \<or> CHR ''_'' = lastbutone \<or> CHR ''.'' = lastbutone then
          (if CHR ''1'' = lastchar \<or> CHR ''2'' = lastchar \<or> CHR ''f'' = lastchar \<or> CHR ''r'' = lastchar
           then Inr (take (nat (n - 1)) l)
           else Inr l)
        else if int cap \<le> n + 1 then Inl OutOfBounds
        else Inr (l[nat (n - 1) := CHR ''/'']))"

subsection \<open>\<^verbatim>\<open>hash\<close> (lines 566--572)\<close>

text \<open>\<^verbatim>\<open>*s\<close> is promoted to \<^verbatim>\<open>int\<close> and then converted to \<^verbatim>\<open>unsigned\<close>.\<close>

definition char_val :: "bool \<Rightarrow> char \<Rightarrow> 32 word" where
  "char_val sg c =
     (if sg \<and> 128 \<le> (of_char c :: nat) then of_nat (of_char c) - 256 else of_nat (of_char c))"

fun hash_loop :: "bool \<Rightarrow> 32 word \<Rightarrow> string \<Rightarrow> 32 word" where
  "hash_loop sg hashval [] = hashval"
| "hash_loop sg hashval (c # s) = hash_loop sg (char_val sg c + 31 * hashval) s"

definition hash :: "bool \<Rightarrow> string \<Rightarrow> 32 word" where
  "hash sg s = hash_loop sg 0 s"

text \<open>\<^verbatim>\<open>hash(line) % opt->tablesize\<close>, for a table size that passed the allocation.\<close>

definition bucket :: "platform \<Rightarrow> options \<Rightarrow> string \<Rightarrow> error + nat" where
  "bucket pf opt s =
     (if tablesize opt = 0 then Inl DivisionByZero
      else Inr (nat (uint (hash (char_signed pf) s) mod tablesize opt)))"

subsection \<open>The local state of \<^verbatim>\<open>pair_files\<close>\<close>

text \<open>
  The two bucket arrays come from \<^verbatim>\<open>malloc\<close> and are never cleared, so a bucket starts
  with whatever the fresh memory holds: the null pointer, or an indeterminate pointer that
  must not be followed. A bucket of \<open>ids_left\<close> (of \<open>ids_right\<close>) is the list of the entries
  the run has put in front of that initial pointer, and \<open>wild_left b\<close> (\<open>wild_right b\<close>) says
  that the initial pointer of bucket \<open>b\<close> is not null; insertion at the head keeps it at
  the end of the chain.
\<close>

record locals =
  line :: string
  lfp :: nat
  rfp :: nat
  nextposition :: int
  ids_left :: "idloc list list"
  ids_right :: "idloc list list"
  left_paired :: "string list"
  left_single :: "string list"
  right_paired :: "string list"
  right_single :: "string list"
  left_duplicates_counter :: int
  right_duplicates_counter :: int
  left_paired_counter :: int
  right_paired_counter :: int
  left_single_counter :: int
  right_single_counter :: int
  wild_left :: "nat \<Rightarrow> bool"
  wild_right :: "nat \<Rightarrow> bool"

subsection \<open>The loops over chains and lines\<close>

text \<open>The duplicate scan (lines 219--231 and 399--411): is there an entry with this id?\<close>

fun find_existing :: "idloc list \<Rightarrow> string \<Rightarrow> bool" where
  "find_existing [] key = False"
| "find_existing (existing # rest) key =
     (if id_str existing = key then True else find_existing rest key)"

text \<open>Insertion at the head of a chain (lines 237--241 and 417--421).\<close>

definition insert_head :: "idloc list list \<Rightarrow> nat \<Rightarrow> string \<Rightarrow> int \<Rightarrow> idloc list list" where
  "insert_head tbl hashval key p =
     tbl[hashval := \<lparr>id_str = dupstr key, pos = p, printed = False\<rparr> # tbl ! hashval]"

text \<open>The mate lookup (lines 426--433): the whole chain is walked; the result is the last
  value of \<^verbatim>\<open>posn\<close> and the chain with its flags updated.\<close>

fun lookup_chain :: "string \<Rightarrow> idloc list \<Rightarrow> int \<Rightarrow> int \<times> idloc list" where
  "lookup_chain key [] posn = (posn, [])"
| "lookup_chain key (ptr # rest) posn =
     (if id_str ptr = key
      then (let (posn', rest') = lookup_chain key rest (pos ptr)
            in (posn', ptr\<lparr>printed := True\<rparr> # rest'))
      else (let (posn', rest') = lookup_chain key rest posn
            in (posn', ptr # rest')))"

text \<open>Reading \<open>k\<close> lines and ignoring them (lines 245--246 and 473--475).\<close>

fun skip_lines :: "nat \<Rightarrow> nat \<Rightarrow> string \<Rightarrow> nat \<times> string \<Rightarrow> nat \<times> string" where
  "skip_lines 0 max_len content st = st"
| "skip_lines (Suc k) max_len content st =
     skip_lines k max_len content (snd (readFromFile max_len content st))"

text \<open>Copying \<open>k\<close> lines of the second file to an output (lines 455--458 and 467--470).\<close>

fun right_lines :: "nat \<Rightarrow> nat \<Rightarrow> string \<Rightarrow> (nat \<times> string) \<times> string list
    \<Rightarrow> (nat \<times> string) \<times> string list" where
  "right_lines 0 max_len content st = st"
| "right_lines (Suc k) max_len content (st, out) =
     (let st' = snd (readFromFile max_len content st)
      in right_lines k max_len content (st', writeToFile out (snd st')))"

text \<open>Copying a record of the first file to an output (lines 440--447 and 487--494):
  \<open>k\<close> lines remain, \<open>i\<close> is the loop counter.\<close>

fun left_lines :: "nat \<Rightarrow> nat \<Rightarrow> nat \<Rightarrow> string \<Rightarrow> bool \<Rightarrow> string
    \<Rightarrow> (nat \<times> string) \<times> string list \<Rightarrow> (nat \<times> string) \<times> string list" where
  "left_lines 0 i max_len content fmt ident st = st"
| "left_lines (Suc k) i max_len content fmt ident (st, out) =
     (let st' = snd (readFromFile max_len content st)
      in left_lines k (Suc i) max_len content fmt ident
           (st', writeToFile out (if i = 0 \<and> fmt then catstr ident ''1\<newline>'' else snd st')))"

subsection \<open>Building the index of the first file (lines 171--250)\<close>

text \<open>One iteration, after \<^verbatim>\<open>readFromFile\<close> has put the header into \<open>line\<close>. The
  duplicate scan stops at the first entry with the id; when there is none it runs to the end
  of the chain and follows the initial pointer of the bucket.\<close>

definition left_record :: "platform \<Rightarrow> options \<Rightarrow> string \<Rightarrow> locals \<Rightarrow> error + locals" where
  "left_record pf opt L s =
     (case normalize_id (MAXLINELEN pf + 1) (strip_line (splitspace opt) (line s)) of
        Inl e \<Rightarrow> Inl e
      | Inr key \<Rightarrow>
         (case bucket pf opt key of
            Inl e \<Rightarrow> Inl e
          | Inr hashval \<Rightarrow>
             if deduplicate opt \<and> \<not> find_existing (ids_left s ! hashval) key \<and> wild_left s hashval
             then Inl IndeterminatePointer
             else
               (let s1 = (if deduplicate opt \<and> find_existing (ids_left s ! hashval) key
                          then s\<lparr>left_duplicates_counter := left_duplicates_counter s + 1\<rparr>
                          else s\<lparr>ids_left := insert_head (ids_left s) hashval key (nextposition s)\<rparr>);
                    st = skip_lines 3 (MAXLINELEN pf) L (lfp s, key)
                in Inr (s1\<lparr>line := snd st, lfp := fst st, nextposition := int (fst st)\<rparr>))))"

lemma take_line_length: "length (take_line k cs) \<le> length cs"
  by (induction k cs rule: take_line.induct) auto

lemma c_str_length: "length (c_str bytes) \<le> length bytes"
  by (simp add: c_str_def length_takeWhile_le)

lemma fgets_Some:
  assumes "fgets n content p = Some (l, p')"
  shows "p < length content" and "p + length l \<le> p'" and "p' \<le> length content"
proof -
  from assms show "p < length content"
    by (simp add: fgets_def split: if_splits)
  from assms have l: "l = c_str (take_line (n - 1) (drop p content))"
    and p': "p' = p + length (take_line (n - 1) (drop p content))"
    by (auto simp: fgets_def Let_def split: if_splits)
  show "p + length l \<le> p'"
    unfolding l p' using c_str_length by simp
  have "length (take_line (n - 1) (drop p content)) \<le> length (drop p content)"
    by (rule take_line_length)
  with \<open>p < length content\<close> show "p' \<le> length content"
    unfolding p' by simp
qed

lemma readFromFile_mono: "fst st \<le> fst (snd (readFromFile n content st))"
  using fgets_Some(2) [of n content "fst st"]
  by (auto simp: readFromFile_def split: option.splits)

lemma skip_lines_mono: "fst st \<le> fst (skip_lines k n content st)"
proof (induction k arbitrary: st)
  case 0
  show ?case by simp
next
  case (Suc k)
  have "fst st \<le> fst (snd (readFromFile n content st))"
    by (rule readFromFile_mono)
  also have "\<dots> \<le> fst (skip_lines k n content (snd (readFromFile n content st)))"
    by (rule Suc.IH)
  finally show ?case by simp
qed

lemma strip_line_length: "length (strip_line sp l) \<le> length l"
  by (simp add: strip_line_def Let_def)

lemma normalize_id_Inr_length: "normalize_id cap l = Inr key \<Longrightarrow> 2 \<le> length l"
  by (simp add: normalize_id_def Let_def split: if_splits)

lemma left_record_progress:
  assumes "left_record pf opt L s = Inr s'"
  shows "2 \<le> length (line s)" and "lfp s \<le> lfp s'"
proof -
  from assms obtain key where
    key: "normalize_id (MAXLINELEN pf + 1) (strip_line (splitspace opt) (line s)) = Inr key"
    by (auto simp: left_record_def split: sum.splits)
  from normalize_id_Inr_length [OF key] strip_line_length [of "splitspace opt" "line s"]
  show "2 \<le> length (line s)" by simp
  from assms key have "lfp s' = fst (skip_lines 3 (MAXLINELEN pf) L (lfp s, key))"
    by (auto simp: left_record_def Let_def simp del: skip_lines.simps split: sum.splits if_splits)
  with skip_lines_mono [of "(lfp s, key)" 3 "MAXLINELEN pf" L]
  show "lfp s \<le> lfp s'" by simp
qed

text \<open>The loop \<^verbatim>\<open>while (1)\<close> with its exit at end of file. An iteration that goes on has
  read a header of at least two characters, so the position has moved.\<close>

function left_loop :: "platform \<Rightarrow> options \<Rightarrow> string \<Rightarrow> locals \<Rightarrow> error + locals" where
  "left_loop pf opt L s =
     (case fgets (MAXLINELEN pf) L (lfp s) of
        None \<Rightarrow> Inr s
      | Some (l, p) \<Rightarrow>
          (case left_record pf opt L (s\<lparr>line := l, lfp := p\<rparr>) of
             Inl e \<Rightarrow> Inl e
           | Inr s' \<Rightarrow> left_loop pf opt L s'))"
  by pat_completeness auto
termination
proof (relation "measure (\<lambda>(pf, opt, L, s). length L - lfp s)")
  show "wf (measure (\<lambda>(pf, opt, L, s). length L - lfp s))"
    by simp
next
  fix pf opt L s x2 l p s'
  assume f: "fgets (MAXLINELEN pf) L (lfp s) = Some x2" and x2: "(l, p) = x2"
    and r: "left_record pf opt L (s\<lparr>line := l, lfp := p\<rparr>) = Inr s'"
  from f x2 have f': "fgets (MAXLINELEN pf) L (lfp s) = Some (l, p)" by simp
  from left_record_progress [OF r] have "2 \<le> length l" and "p \<le> lfp s'" by simp_all
  with fgets_Some [OF f'] have "lfp s < length L" and "lfp s < lfp s'" by simp_all
  then show "((pf, opt, L, s'), (pf, opt, L, s)) \<in> measure (\<lambda>(pf, opt, L, s). length L - lfp s)"
    by simp
qed

subsection \<open>Matching the second file against the index (lines 354--477)\<close>

text \<open>Writing a matched pair. The first half (lines 438--447) seeks in the first file,
  counts the left record and copies its four lines; the second half (lines 449--458) writes
  the header of the right record, counts it and copies its three other lines. The buffer
  \<open>line\<close> holds the normalized id when the first half starts.\<close>

definition emit_left_mate :: "platform \<Rightarrow> options \<Rightarrow> string \<Rightarrow> string \<Rightarrow> int \<Rightarrow> locals \<Rightarrow> locals" where
  "emit_left_mate pf opt L entryid posn s =
     (let lst = left_lines 4 0 (MAXLINELEN pf) L (formatid opt) entryid
                  ((nat posn, line s), left_paired s)
      in s\<lparr>line := snd (fst lst), lfp := fst (fst lst), left_paired := snd lst,
            left_paired_counter := left_paired_counter s + 1\<rparr>)"

definition emit_right_mate :: "platform \<Rightarrow> string \<Rightarrow> string \<Rightarrow> locals \<Rightarrow> locals" where
  "emit_right_mate pf R header s =
     (let rst = right_lines 3 (MAXLINELEN pf) R
                  ((rfp s, line s), writeToFile (right_paired s) header)
      in s\<lparr>line := snd (fst rst), rfp := fst (fst rst), right_paired := snd rst,
            right_paired_counter := right_paired_counter s + 1\<rparr>)"

text \<open>One iteration, after \<^verbatim>\<open>readFromFile\<close> has put the header into \<open>line\<close>.
  \<^verbatim>\<open>seekInFile\<close> sets the position of the first file to \<open>posn\<close>. In this loop
  \<open>nextposition\<close> stays 0. The mate lookup always runs to the end of the chain, so it
  follows the initial pointer of the bucket.\<close>

definition right_record :: "platform \<Rightarrow> options \<Rightarrow> string \<Rightarrow> string \<Rightarrow> locals \<Rightarrow> error + locals" where
  "right_record pf opt L R s =
     (let headerline = dupstr (line s) in
      case normalize_id (MAXLINELEN pf + 1) (strip_line (splitspace opt) (line s)) of
        Inl e \<Rightarrow> Inl e
      | Inr key \<Rightarrow>
         (case bucket pf opt key of
            Inl e \<Rightarrow> Inl e
          | Inr hashval \<Rightarrow>
             (let entryid = dupstr key in
              if deduplicate opt \<and> find_existing (ids_right s ! hashval) key
              then
                (let st = skip_lines 3 (MAXLINELEN pf) R (rfp s, key)
                 in Inr (s\<lparr>line := snd st, rfp := fst st,
                          right_duplicates_counter := right_duplicates_counter s + 1\<rparr>))
              else if deduplicate opt \<and> wild_right s hashval then Inl IndeterminatePointer
              else
                (let s1 = (if deduplicate opt
                           then s\<lparr>ids_right := insert_head (ids_right s) hashval key (nextposition s)\<rparr>
                           else s);
                     found = lookup_chain key (ids_left s ! hashval) (- 1);
                     posn = fst found;
                     s2 = s1\<lparr>line := key, ids_left := (ids_left s)[hashval := snd found]\<rparr>;
                     header = (if formatid opt then catstr entryid ''2\<newline>'' else headerline)
                 in if wild_left s hashval then Inl IndeterminatePointer
                    else if posn \<noteq> - 1
                    then Inr (emit_right_mate pf R header (emit_left_mate pf opt L entryid posn s2))
                    else
                      (let rst = right_lines 3 (MAXLINELEN pf) R
                                   ((rfp s, key), writeToFile (right_single s) header)
                       in Inr (s2\<lparr>line := snd (fst rst), rfp := fst (fst rst),
                                  right_single := snd rst,
                                  right_single_counter := right_single_counter s + 1\<rparr>))))))"

lemma right_lines_mono: "fst (fst st) \<le> fst (fst (right_lines k n content st))"
proof (induction k n content st rule: right_lines.induct)
  case (1 n content st)
  show ?case by simp
next
  case (2 k n content st out)
  have "fst st \<le> fst (snd (readFromFile n content st))"
    by (rule readFromFile_mono)
  also have "\<dots> \<le> fst (fst (right_lines (Suc k) n content (st, out)))"
    using "2.IH" [OF refl] by (simp add: Let_def)
  finally show ?case by simp
qed

lemma right_record_progress:
  assumes "right_record pf opt L R s = Inr s'"
  shows "2 \<le> length (line s)" and "rfp s \<le> rfp s'"
proof -
  from assms obtain key where
    key: "normalize_id (MAXLINELEN pf + 1) (strip_line (splitspace opt) (line s)) = Inr key"
    by (auto simp: right_record_def split: sum.splits)
  from normalize_id_Inr_length [OF key] strip_line_length [of "splitspace opt" "line s"]
  show "2 \<le> length (line s)" by simp
  from assms key obtain hashval where b: "bucket pf opt key = Inr hashval"
    by (auto simp: right_record_def split: sum.splits)
  note sk = skip_lines_mono [of "(rfp s, key)" 3 "MAXLINELEN pf" R]
  note r1 = right_lines_mono [of "((rfp s, x), y)" 3 "MAXLINELEN pf" R for x y]
  from assms key b sk r1 show "rfp s \<le> rfp s'"
    unfolding right_record_def emit_left_mate_def emit_right_mate_def Let_def
    by (auto simp del: skip_lines.simps right_lines.simps left_lines.simps split: if_splits)
qed

function right_loop :: "platform \<Rightarrow> options \<Rightarrow> string \<Rightarrow> string \<Rightarrow> locals \<Rightarrow> error + locals" where
  "right_loop pf opt L R s =
     (case fgets (MAXLINELEN pf) R (rfp s) of
        None \<Rightarrow> Inr s
      | Some (l, p) \<Rightarrow>
          (case right_record pf opt L R (s\<lparr>line := l, rfp := p\<rparr>) of
             Inl e \<Rightarrow> Inl e
           | Inr s' \<Rightarrow> right_loop pf opt L R s'))"
  by pat_completeness auto
termination
proof (relation "measure (\<lambda>(pf, opt, L, R, s). length R - rfp s)")
  show "wf (measure (\<lambda>(pf, opt, L, R, s). length R - rfp s))"
    by simp
next
  fix pf opt L R s x2 l p s'
  assume f: "fgets (MAXLINELEN pf) R (rfp s) = Some x2" and x2: "(l, p) = x2"
    and r: "right_record pf opt L R (s\<lparr>line := l, rfp := p\<rparr>) = Inr s'"
  from f x2 have f': "fgets (MAXLINELEN pf) R (rfp s) = Some (l, p)" by simp
  from right_record_progress [OF r] have "2 \<le> length l" and "p \<le> rfp s'" by simp_all
  with fgets_Some [OF f'] have "rfp s < length R" and "rfp s < rfp s'" by simp_all
  then show "((pf, opt, L, R, s'), (pf, opt, L, R, s))
      \<in> measure (\<lambda>(pf, opt, L, R, s). length R - rfp s)"
    by simp
qed

subsection \<open>Printing the unprinted entries of the index (lines 481--498)\<close>

fun emit_chain :: "platform \<Rightarrow> options \<Rightarrow> string \<Rightarrow> idloc list \<Rightarrow> locals \<Rightarrow> locals" where
  "emit_chain pf opt L [] s = s"
| "emit_chain pf opt L (ptr # rest) s =
     emit_chain pf opt L rest
       (if \<not> printed ptr
        then (let lst = left_lines 4 0 (MAXLINELEN pf) L (formatid opt) (id_str ptr)
                          ((nat (pos ptr), line s), left_single s)
              in s\<lparr>line := snd (fst lst), lfp := fst (fst lst), left_single := snd lst,
                    left_single_counter := left_single_counter s + 1\<rparr>)
        else s)"

text \<open>The outer \<^verbatim>\<open>for\<close> visits the buckets \<open>0, \<dots>, tablesize - 1\<close> in this order.\<close>

fun emit_table :: "platform \<Rightarrow> options \<Rightarrow> string \<Rightarrow> idloc list list \<Rightarrow> locals \<Rightarrow> locals" where
  "emit_table pf opt L [] s = s"
| "emit_table pf opt L (chain # tbl) s = emit_table pf opt L tbl (emit_chain pf opt L chain s)"

subsection \<open>\<^verbatim>\<open>pair_files\<close> (lines 109--563)\<close>

text \<open>
  What a run leaves behind: the four output files and the six counters it prints.
\<close>

record run_result =
  out_left_paired :: "string list"
  out_left_single :: "string list"
  out_right_paired :: "string list"
  out_right_single :: "string list"
  n_left_paired :: int
  n_right_paired :: int
  n_left_single :: int
  n_right_single :: int
  n_left_duplicates :: int
  n_right_duplicates :: int

definition report :: "locals \<Rightarrow> run_result" where
  "report s = \<lparr>out_left_paired = left_paired s, out_left_single = left_single s,
               out_right_paired = right_paired s, out_right_single = right_single s,
               n_left_paired = left_paired_counter s, n_right_paired = right_paired_counter s,
               n_left_single = left_single_counter s, n_right_single = right_single_counter s,
               n_left_duplicates = left_duplicates_counter s,
               n_right_duplicates = right_duplicates_counter s\<rparr>"

text \<open>
  The final sweep follows every bucket to its end, the initial pointer included. (So does
  the count of the buckets that \<^verbatim>\<open>print_table_counts\<close> asks for between the two loops;
  it only prints, and is left out.)
\<close>

definition sweep :: "platform \<Rightarrow> options \<Rightarrow> string \<Rightarrow> locals \<Rightarrow> error + locals" where
  "sweep pf opt L s =
     (if list_ex (wild_left s) [0..<nat (tablesize opt)] then Inl IndeterminatePointer
      else Inr (emit_table pf opt L (ids_left s) s))"

text \<open>
  The state at the first loop. A negative table size makes the allocation request larger
  than any object, and the function exits. What the fresh memory holds is not determined by
  the program: \<open>wl\<close> and \<open>wr\<close> say which buckets of the two fresh arrays hold a pointer
  that is not null, and \<open>buf\<close> is the text in the fresh buffer \<open>line\<close>.
\<close>

definition init_locals :: "options \<Rightarrow> (nat \<Rightarrow> bool) \<Rightarrow> (nat \<Rightarrow> bool) \<Rightarrow> string \<Rightarrow> locals" where
  "init_locals opt wl wr buf =
     \<lparr>line = buf, lfp = 0, rfp = 0, nextposition = 0,
      ids_left = replicate (nat (tablesize opt)) [],
      ids_right = (if deduplicate opt then replicate (nat (tablesize opt)) [] else []),
      left_paired = [], left_single = [], right_paired = [], right_single = [],
      left_duplicates_counter = 0, right_duplicates_counter = 0,
      left_paired_counter = 0, right_paired_counter = 0,
      left_single_counter = 0, right_single_counter = 0,
      wild_left = wl, wild_right = wr\<rparr>"

definition pair_files :: "platform \<Rightarrow> options \<Rightarrow> (nat \<Rightarrow> bool) \<Rightarrow> (nat \<Rightarrow> bool) \<Rightarrow> string
    \<Rightarrow> string \<Rightarrow> string \<Rightarrow> error + run_result" where
  "pair_files pf opt wl wr buf L R =
     (if tablesize opt < 0 then Inl AllocationFailed
      else
        case left_loop pf opt L (init_locals opt wl wr buf) of
          Inl e \<Rightarrow> Inl e
        | Inr s1 \<Rightarrow>
           (case right_loop pf opt L R (s1\<lparr>nextposition := 0\<rparr>) of
              Inl e \<Rightarrow> Inl e
            | Inr s2 \<Rightarrow>
               (case sweep pf opt L s2 of
                  Inl e \<Rightarrow> Inl e
                | Inr s3 \<Rightarrow> Inr (report s3))))"

section \<open>Vocabulary of the specification\<close>

text \<open>The separators and mate markers the normalizer tests for.\<close>

definition is_separator :: "char \<Rightarrow> bool" where
  "is_separator c \<longleftrightarrow> c = CHR ''/'' \<or> c = CHR ''_'' \<or> c = CHR ''.''"

definition is_mate :: "char \<Rightarrow> bool" where
  "is_mate c \<longleftrightarrow> c = CHR ''1'' \<or> c = CHR ''2'' \<or> c = CHR ''f'' \<or> c = CHR ''r''"

text \<open>The normalization rule in the words of the specification (steps 3 and 4 of its
  section 4.1): a separator followed by a mate marker loses the marker; every other text has
  its last character replaced by a slash.\<close>

definition spec_normalize :: "string \<Rightarrow> string" where
  "spec_normalize l =
     (if is_separator (l ! (length l - 2)) \<and> is_mate (l ! (length l - 1))
      then butlast l
      else butlast l @ ''/'')"

text \<open>Setting the flag of the entries with a given id; the entries of a chain with that
  id; and a run of insertions at the head of one bucket.\<close>

definition mark_printed :: "string \<Rightarrow> idloc \<Rightarrow> idloc" where
  "mark_printed key e = (if id_str e = key then e\<lparr>printed := True\<rparr> else e)"

definition matching :: "string \<Rightarrow> idloc list \<Rightarrow> idloc list" where
  "matching key chain = filter (\<lambda>e. id_str e = key) chain"

definition insert_all :: "idloc list list \<Rightarrow> nat \<Rightarrow> (string \<times> int) list \<Rightarrow> idloc list list" where
  "insert_all tbl b kps = foldl (\<lambda>t kp. insert_head t b (fst kp) (snd kp)) tbl kps"

text \<open>
  A well-formed line of a file read with \<^verbatim>\<open>fgets(line, n, fp)\<close>: it ends with its only
  newline, has no NUL byte and fits the buffer. Reading \<open>k\<close> lines in a row from a position
  gives the lines and the position after them, or nothing when the file ends first (the
  \<^verbatim>\<open>read_record\<close> of the specification's record store, for \<open>k = 4\<close>).
\<close>

definition wf_line :: "nat \<Rightarrow> string \<Rightarrow> bool" where
  "wf_line n l \<longleftrightarrow>
     l \<noteq> [] \<and> last l = CHR 0x0A \<and> CHR 0x0A \<notin> set (butlast l) \<and> CHR 0x00 \<notin> set l \<and> length l < n"

fun read_lines :: "nat \<Rightarrow> nat \<Rightarrow> string \<Rightarrow> nat \<Rightarrow> (string list \<times> nat) option" where
  "read_lines 0 n content p = Some ([], p)"
| "read_lines (Suc k) n content p =
     (case fgets n content p of
        None \<Rightarrow> None
      | Some (l, p') \<Rightarrow>
          (case read_lines k n content p' of
             None \<Rightarrow> None
           | Some (ls, q) \<Rightarrow> Some (l # ls, q)))"

text \<open>What the final sweep writes for one entry: the four lines at its offset, the
  header replaced by the id and the mate number when \<^verbatim>\<open>formatid\<close> is set; and the
  unprinted entries of a chain.\<close>

definition emitted_record :: "platform \<Rightarrow> options \<Rightarrow> string \<Rightarrow> idloc \<Rightarrow> string list" where
  "emitted_record pf opt L e =
     (case read_lines 4 (MAXLINELEN pf) L (nat (pos e)) of
        None \<Rightarrow> []
      | Some (ls, q) \<Rightarrow> (if formatid opt then catstr (id_str e) ''1\<newline>'' # tl ls else ls))"

definition unprinted :: "idloc list \<Rightarrow> idloc list" where
  "unprinted chain = filter (\<lambda>e. \<not> printed e) chain"

text \<open>
  Well-formed input. A record is four well-formed lines whose header, once stripped, has at
  least two characters; \<open>record_key\<close> is the id the normalizer gives it; a file is the
  concatenation of the lines of its records; \<open>bucket_of\<close> is the bucket of an id for a
  positive table size.
\<close>

definition wf_record :: "platform \<Rightarrow> options \<Rightarrow> string list \<Rightarrow> bool" where
  "wf_record pf opt r \<longleftrightarrow>
     length r = 4 \<and> (\<forall>l \<in> set r. wf_line (MAXLINELEN pf) l)
     \<and> 2 \<le> length (strip_line (splitspace opt) (hd r))"

definition record_key :: "platform \<Rightarrow> options \<Rightarrow> string list \<Rightarrow> string" where
  "record_key pf opt r =
     (case normalize_id (MAXLINELEN pf + 1) (strip_line (splitspace opt) (hd r)) of
        Inl e \<Rightarrow> []
      | Inr key \<Rightarrow> key)"

definition file_of :: "string list list \<Rightarrow> string" where
  "file_of recs = concat (map concat recs)"

definition bucket_of :: "platform \<Rightarrow> options \<Rightarrow> string \<Rightarrow> nat" where
  "bucket_of pf opt key = nat (uint (hash (char_signed pf) key) mod tablesize opt)"

text \<open>
  The effect of one iteration of each loop on a well-formed record, with the reads of the
  record's own lines resolved: \<open>index_record\<close> for the first file, \<open>match_record\<close> for
  the second one (\<open>record_end\<close> is where the first file stands after a matched record has
  been read again); and the iterations over a list of records.
\<close>

definition index_record :: "platform \<Rightarrow> options \<Rightarrow> string list \<Rightarrow> locals \<Rightarrow> locals" where
  "index_record pf opt r s =
     (let key = record_key pf opt r; b = bucket_of pf opt key; e = lfp s + length (concat r)
      in (if deduplicate opt \<and> key \<in> id_str ` set (ids_left s ! b)
          then s\<lparr>left_duplicates_counter := left_duplicates_counter s + 1\<rparr>
          else s\<lparr>ids_left := insert_head (ids_left s) b key (nextposition s)\<rparr>)
         \<lparr>line := last r, lfp := e, nextposition := int e\<rparr>)"

text \<open>
  A partial record at the end of a file: one to three well-formed lines, the first a header
  that yields an id. The first loop treats it as \<open>index_record\<close> does a complete record,
  but for the text left in the buffer.
\<close>

definition wf_partial :: "platform \<Rightarrow> options \<Rightarrow> string list \<Rightarrow> bool" where
  "wf_partial pf opt r \<longleftrightarrow>
     r \<noteq> [] \<and> length r < 4 \<and> (\<forall>l \<in> set r. wf_line (MAXLINELEN pf) l)
     \<and> 2 \<le> length (strip_line (splitspace opt) (hd r))"

definition index_partial :: "platform \<Rightarrow> options \<Rightarrow> string list \<Rightarrow> locals \<Rightarrow> locals" where
  "index_partial pf opt r s =
     (index_record pf opt r s)\<lparr>line := last (record_key pf opt r # tl r)\<rparr>"

text \<open>
  The header written for a record of the second file with header line \<open>h\<close>, and the number
  of records of the second file that the counters account for.
\<close>

definition right_header :: "platform \<Rightarrow> options \<Rightarrow> string \<Rightarrow> string" where
  "right_header pf opt h =
     (if formatid opt then catstr (record_key pf opt [h]) ''2\<newline>'' else h)"

definition right_count :: "locals \<Rightarrow> int" where
  "right_count s = right_paired_counter s + right_single_counter s + right_duplicates_counter s"

text \<open>Four times the number of records of the second file dealt with, when every record
  that is not counted as a duplicate has had four lines written.\<close>

definition right_written :: "locals \<Rightarrow> int" where
  "right_written s =
     int (length (right_paired s)) + int (length (right_single s)) + 4 * right_duplicates_counter s"

definition record_end :: "platform \<Rightarrow> string \<Rightarrow> idloc \<Rightarrow> nat" where
  "record_end pf L e =
     (case read_lines 4 (MAXLINELEN pf) L (nat (pos e)) of None \<Rightarrow> 0 | Some (ls, q) \<Rightarrow> q)"

definition match_record :: "platform \<Rightarrow> options \<Rightarrow> string \<Rightarrow> string list \<Rightarrow> locals \<Rightarrow> locals" where
  "match_record pf opt L r s =
     (let key = record_key pf opt r; b = bucket_of pf opt key; e = rfp s + length (concat r);
          header = (if formatid opt then catstr key ''2\<newline>'' else hd r)
      in if deduplicate opt \<and> key \<in> id_str ` set (ids_right s ! b)
         then s\<lparr>line := last r, rfp := e,
                 right_duplicates_counter := right_duplicates_counter s + 1\<rparr>
         else
           (let s1 = (if deduplicate opt
                      then s\<lparr>ids_right := insert_head (ids_right s) b key (nextposition s)\<rparr>
                      else s);
                ms = matching key (ids_left s ! b);
                s2 = s1\<lparr>ids_left := (ids_left s)[b := map (mark_printed key) (ids_left s ! b)]\<rparr>
            in if ms \<noteq> []
               then s2\<lparr>line := last r, lfp := record_end pf L (last ms), rfp := e,
                       left_paired := left_paired s @ emitted_record pf opt L (last ms),
                       right_paired := right_paired s @ header # tl r,
                       left_paired_counter := left_paired_counter s + 1,
                       right_paired_counter := right_paired_counter s + 1\<rparr>
               else s2\<lparr>line := last r, rfp := e,
                       right_single := right_single s @ header # tl r,
                       right_single_counter := right_single_counter s + 1\<rparr>))"

definition index_records :: "platform \<Rightarrow> options \<Rightarrow> string list list \<Rightarrow> locals \<Rightarrow> locals" where
  "index_records pf opt recs s = foldl (\<lambda>s r. index_record pf opt r s) s recs"

definition match_records :: "platform \<Rightarrow> options \<Rightarrow> string \<Rightarrow> string list list \<Rightarrow> locals \<Rightarrow> locals" where
  "match_records pf opt L recs s = foldl (\<lambda>s r. match_record pf opt L r s) s recs"

text \<open>
  An entry of the index is sound when its offset is the start of a record of the first file
  whose id is the entry's id; \<open>index_of\<close> says that the ids of each bucket are those of the
  records that hash to it.
\<close>

definition entry_ok :: "platform \<Rightarrow> options \<Rightarrow> string \<Rightarrow> string list list \<Rightarrow> idloc \<Rightarrow> bool" where
  "entry_ok pf opt L recs e \<longleftrightarrow>
     0 \<le> pos e
     \<and> (\<exists>r \<in> set recs. \<exists>q. read_lines 4 (MAXLINELEN pf) L (nat (pos e)) = Some (r, q)
            \<and> record_key pf opt r = id_str e)"

definition table_ok :: "platform \<Rightarrow> options \<Rightarrow> string \<Rightarrow> string list list \<Rightarrow> idloc list list \<Rightarrow> bool" where
  "table_ok pf opt L recs tbl \<longleftrightarrow>
     length tbl = nat (tablesize opt)
     \<and> (\<forall>chain \<in> set tbl. \<forall>e \<in> set chain. entry_ok pf opt L recs e)"

definition index_of :: "platform \<Rightarrow> options \<Rightarrow> string list list \<Rightarrow> idloc list list \<Rightarrow> bool" where
  "index_of pf opt lrecs tbl \<longleftrightarrow>
     (\<forall>b < nat (tablesize opt). id_str ` set (tbl ! b) =
        {record_key pf opt l | l. l \<in> set lrecs \<and> bucket_of pf opt (record_key pf opt l) = b})"

text \<open>
  What is written for a record of the first and of the second file (the header rewritten
  when \<^verbatim>\<open>formatid\<close> is set); the records of the first file with the id of a given record;
  the paired records in the order in which they are written; and the states after the first
  and after the second loop of a run over two lists of records.
\<close>

definition left_out :: "platform \<Rightarrow> options \<Rightarrow> string list \<Rightarrow> string list" where
  "left_out pf opt l =
     (if formatid opt then catstr (record_key pf opt l) ''1\<newline>'' # tl l else l)"

definition right_out :: "platform \<Rightarrow> options \<Rightarrow> string list \<Rightarrow> string list" where
  "right_out pf opt r =
     (if formatid opt then catstr (record_key pf opt r) ''2\<newline>'' # tl r else r)"

definition mates :: "platform \<Rightarrow> options \<Rightarrow> string list list \<Rightarrow> string list \<Rightarrow> string list list" where
  "mates pf opt lrecs r = filter (\<lambda>l. record_key pf opt l = record_key pf opt r) lrecs"

definition has_mate :: "platform \<Rightarrow> options \<Rightarrow> string list list \<Rightarrow> string list \<Rightarrow> bool" where
  "has_mate pf opt lrecs r \<longleftrightarrow> record_key pf opt r \<in> record_key pf opt ` set lrecs"

definition paired_left :: "platform \<Rightarrow> options \<Rightarrow> string list list \<Rightarrow> string list list \<Rightarrow> string list list" where
  "paired_left pf opt lrecs rrecs = concat (map (mates pf opt lrecs) rrecs)"

definition paired_right :: "platform \<Rightarrow> options \<Rightarrow> string list list \<Rightarrow> string list list \<Rightarrow> string list list" where
  "paired_right pf opt lrecs rrecs = filter (has_mate pf opt lrecs) rrecs"

definition indexed :: "platform \<Rightarrow> options \<Rightarrow> (nat \<Rightarrow> bool) \<Rightarrow> (nat \<Rightarrow> bool) \<Rightarrow> string
    \<Rightarrow> string list list \<Rightarrow> locals" where
  "indexed pf opt wl wr buf lrecs =
     (index_records pf opt lrecs (init_locals opt wl wr buf))\<lparr>nextposition := 0\<rparr>"

definition matched :: "platform \<Rightarrow> options \<Rightarrow> (nat \<Rightarrow> bool) \<Rightarrow> (nat \<Rightarrow> bool) \<Rightarrow> string
    \<Rightarrow> string list list \<Rightarrow> string list list \<Rightarrow> locals" where
  "matched pf opt wl wr buf lrecs rrecs =
     match_records pf opt (file_of lrecs) rrecs (indexed pf opt wl wr buf lrecs)"

text \<open>The fresh bucket arrays hold null pointers only (the second array is used only with
  duplicate tracking).\<close>

definition null_buckets :: "options \<Rightarrow> (nat \<Rightarrow> bool) \<Rightarrow> (nat \<Rightarrow> bool) \<Rightarrow> bool" where
  "null_buckets opt wl wr \<longleftrightarrow>
     list_all (\<lambda>b. \<not> wl b \<and> (deduplicate opt \<longrightarrow> \<not> wr b)) [0..<nat (tablesize opt)]"

text \<open>Two contents of a fresh array: every bucket null, and every bucket null but bucket
  \<open>k\<close>.\<close>

definition all_null :: "nat \<Rightarrow> bool" where
  "all_null b = False"

definition wild_at :: "nat \<Rightarrow> nat \<Rightarrow> bool" where
  "wild_at k b \<longleftrightarrow> b = k"

text \<open>
  Invariants of a run with duplicate tracking: the ids of a chain are distinct; the number
  of entries of the index whose flag is set; every entry whose flag is set has its id in the
  same bucket of the second index. \<open>clear_wild\<close> is a state with the initial pointers of
  all buckets null.
\<close>

definition chains_distinct :: "idloc list list \<Rightarrow> bool" where
  "chains_distinct tbl \<longleftrightarrow> (\<forall>chain \<in> set tbl. distinct (map id_str chain))"

definition n_printed :: "idloc list list \<Rightarrow> nat" where
  "n_printed tbl = length (filter printed (concat tbl))"

definition marks_seen :: "options \<Rightarrow> locals \<Rightarrow> bool" where
  "marks_seen opt s \<longleftrightarrow>
     (\<forall>b < nat (tablesize opt). \<forall>e \<in> set (ids_left s ! b).
        printed e \<longrightarrow> id_str e \<in> id_str ` set (ids_right s ! b))"

definition clear_wild :: "locals \<Rightarrow> locals" where
  "clear_wild s = s\<lparr>wild_left := all_null, wild_right := all_null\<rparr>"

section \<open>Properties of the normalizer, the index and the run\<close>

subsection \<open>The normalizer\<close>

lemma update_last: "l \<noteq> [] \<Longrightarrow> l[length l - Suc 0 := c] = butlast l @ [c]"
  by (cases l rule: rev_cases) simp_all

lemma take_butlast_conv: "take (length l - Suc 0) l = butlast l"
  by (simp add: butlast_conv_take)

lemma normalize_id_eq:
  assumes "2 \<le> length l"
  shows "normalize_id cap l =
     (if is_separator (l ! (length l - 2))
      then Inr (if is_mate (l ! (length l - 1)) then butlast l else l)
      else if cap \<le> length l + 1 then Inl OutOfBounds
      else Inr (butlast l @ ''/''))"
proof -
  from assms have n: "nat (int (length l) - 1) = length l - 1" "nat (int (length l) - 2) = length l - 2"
    and ne: "l \<noteq> []"
    by auto
  have c: "(int cap \<le> int (length l) + 1) = (cap \<le> length l + 1)" by linarith
  from assms show ?thesis
    unfolding normalize_id_def Let_def n c
    by (auto simp: is_separator_def is_mate_def take_butlast_conv update_last [OF ne])
qed

lemma normalize_id_short: "length l < 2 \<Longrightarrow> normalize_id cap l = Inl OutOfBounds"
  by (simp add: normalize_id_def Let_def)

text \<open>
  C1, as stated, fails: for a text that ends in a separator followed by a character that is
  not a mate marker the specification's rule replaces the last character by a slash, while
  the code leaves the text as it is (the \<^verbatim>\<open>else\<close> belongs to the test of the separator).
  The header \<^verbatim>\<open>@read/3\<close> keeps its id \<^verbatim>\<open>@read/3\<close>; the rule of the specification gives
  \<^verbatim>\<open>@read//\<close>.
\<close>

theorem normalize_id_spec_rule_counterexample:
  "normalize_id 101 (strip_line False ''@read/3\<newline>'') = Inr ''@read/3''
   \<and> spec_normalize (strip_line False ''@read/3\<newline>'') = ''@read//''"
  by (simp add: normalize_id_def strip_line_def strcspn_def Let_def spec_normalize_def
      is_separator_def is_mate_def)

text \<open>
  C1, amended: for a stripped text \<open>l\<close> of at least two characters in a buffer with room for
  \<open>length l + 2\<close> bytes, the normalizer drops the last character when the second-to-last is a
  separator and the last a mate marker, leaves the text unchanged when the second-to-last is
  a separator and the last is not a mate marker, and otherwise overwrites the last character
  with a slash, the length staying the same. The three examples of the claim hold:
  \<^verbatim>\<open>read1/1\<close> and \<^verbatim>\<open>read1/2\<close> give \<^verbatim>\<open>read1/\<close>, and \<^verbatim>\<open>read1\<close> gives \<^verbatim>\<open>read/\<close>.
\<close>

theorem normalize_id_cases:
  "(2 \<le> length l \<and> length l + 1 < cap \<longrightarrow>
      normalize_id cap l =
        Inr (if is_separator (l ! (length l - 2))
             then (if is_mate (l ! (length l - 1)) then butlast l else l)
             else butlast l @ ''/'')
      \<and> (\<not> is_separator (l ! (length l - 2)) \<longrightarrow>
           (\<exists>key. normalize_id cap l = Inr key \<and> length key = length l \<and> last key = CHR ''/'')))
   \<and> normalize_id 101 (strip_line sp ''read1/1\<newline>'') = Inr ''read1/''
   \<and> normalize_id 101 (strip_line sp ''read1/2\<newline>'') = Inr ''read1/''
   \<and> normalize_id 101 (strip_line sp ''read1\<newline>'') = Inr ''read/''"
proof -
  have ex: "normalize_id 101 (strip_line sp ''read1/1\<newline>'') = Inr ''read1/''"
    "normalize_id 101 (strip_line sp ''read1/2\<newline>'') = Inr ''read1/''"
    "normalize_id 101 (strip_line sp ''read1\<newline>'') = Inr ''read/''"
    by (simp_all add: normalize_id_def strip_line_def strcspn_def Let_def)
  show ?thesis
    by (auto simp: normalize_id_eq ex)
qed

theorem normalize_id_cases_witness:
  "normalize_id 101 ''@ab_x'' = Inr ''@ab_x'' \<and> normalize_id 101 ''@ab.r'' = Inr ''@ab.''
   \<and> normalize_id 101 ''@abc'' = Inr ''@ab/''"
  using normalize_id_cases [of "''@ab_x''" 101] normalize_id_cases [of "''@ab.r''" 101]
    normalize_id_cases [of "''@abc''" 101]
  by (simp add: is_separator_def is_mate_def)

text \<open>
  C9: the normalizer reads the buffer at \<open>L - 1\<close> and \<open>L - 2\<close> whatever the text is, so a text
  of length 0 or 1 is an access outside the buffer; with \<open>2 \<le> L\<close> and \<open>L + 1\<close> inside the
  buffer every access is in bounds and an id is returned; and when no separator is found the
  write at \<open>L + 1\<close> needs that index to be inside the buffer.
\<close>

theorem normalize_id_bounds:
  "(length l < 2 \<longrightarrow> normalize_id cap l = Inl OutOfBounds)
   \<and> (2 \<le> length l \<and> length l + 1 < cap \<longrightarrow> (\<exists>key. normalize_id cap l = Inr key))
   \<and> (2 \<le> length l \<and> \<not> is_separator (l ! (length l - 2)) \<and> cap \<le> length l + 1
        \<longrightarrow> normalize_id cap l = Inl OutOfBounds)"
  by (auto simp: normalize_id_short normalize_id_eq)

theorem normalize_id_bounds_witness:
  "normalize_id 101 (strip_line True ''@ comment\<newline>'') = Inl OutOfBounds
   \<and> normalize_id 101 (strip_line False ''\<newline>'') = Inl OutOfBounds
   \<and> (\<exists>key. normalize_id 101 ''@r/1'' = Inr key)
   \<and> normalize_id 5 ''@abc'' = Inl OutOfBounds"
  using normalize_id_bounds [of "strip_line True ''@ comment\<newline>''" 101]
    normalize_id_bounds [of "strip_line False ''\<newline>''" 101]
    normalize_id_bounds [of "''@r/1''" 101] normalize_id_bounds [of "''@abc''" 5]
  by (simp add: strip_line_def strcspn_def is_separator_def)

subsection \<open>The mate lookup\<close>

lemma lookup_chain_snd: "snd (lookup_chain key chain posn) = map (mark_printed key) chain"
  by (induction chain arbitrary: posn) (simp_all add: mark_printed_def case_prod_beta)

lemma lookup_chain_fst:
  "fst (lookup_chain key chain posn) =
     (if matching key chain = [] then posn else pos (last (matching key chain)))"
  by (induction chain arbitrary: posn) (simp_all add: matching_def case_prod_beta)

lemma insert_head_length [simp]: "length (insert_head tbl b k p) = length tbl"
  by (simp add: insert_head_def)

lemma insert_head_nth:
  "b < length tbl \<Longrightarrow>
   insert_head tbl b k p ! b' =
     (if b' = b then \<lparr>id_str = k, pos = p, printed = False\<rparr> # tbl ! b else tbl ! b')"
  by (simp add: insert_head_def dupstr_def)

lemma insert_all_nth:
  "b < length tbl \<Longrightarrow>
   insert_all tbl b kps ! b = rev (map (\<lambda>kp. \<lparr>id_str = fst kp, pos = snd kp, printed = False\<rparr>) kps) @ tbl ! b"
proof (induction kps arbitrary: tbl)
  case Nil
  show ?case by (simp add: insert_all_def)
next
  case (Cons kp kps)
  have "insert_all tbl b (kp # kps) = insert_all (insert_head tbl b (fst kp) (snd kp)) b kps"
    by (simp add: insert_all_def)
  with Cons.IH [of "insert_head tbl b (fst kp) (snd kp)"] Cons.prems
  show ?case by (simp add: insert_head_nth)
qed


lemma lookup_chain_eq:
  "lookup_chain key chain posn =
     (if matching key chain = [] then posn else pos (last (matching key chain)),
      map (mark_printed key) chain)"
  by (simp add: prod_eq_iff lookup_chain_fst lookup_chain_snd)

lemma matching_insert_all:
  assumes "b < length tbl" and "tbl ! b = []"
  shows "matching key (insert_all tbl b kps ! b) =
    rev (map (\<lambda>kp. \<lparr>id_str = fst kp, pos = snd kp, printed = False\<rparr>) (filter (\<lambda>kp. fst kp = key) kps))"
proof -
  let ?mk = "\<lambda>kp. \<lparr>id_str = fst kp, pos = snd kp, printed = False\<rparr>"
  have "matching key (insert_all tbl b kps ! b) = filter (\<lambda>e. id_str e = key) (rev (map ?mk kps))"
    using assms by (simp add: insert_all_nth matching_def)
  also have "\<dots> = rev (filter (\<lambda>e. id_str e = key) (map ?mk kps))"
    by (rule rev_filter [symmetric])
  also have "filter (\<lambda>e. id_str e = key) (map ?mk kps) = map ?mk (filter (\<lambda>kp. fst kp = key) kps)"
    by (induction kps) simp_all
  finally show ?thesis .
qed

subsection \<open>Duplicates in the first file\<close>

declare left_loop.simps [simp del] right_loop.simps [simp del]

lemma find_existing_iff: "find_existing chain key \<longleftrightarrow> key \<in> id_str ` set chain"
  by (induction chain) (simp_all add: eq_commute [of key])

text \<open>
  C6: with duplicate tracking on, a record of the first file whose id has an exact match in
  the chain of its bucket is not inserted: the index is left as it was and the counter of
  left duplicates goes up by one. Two records with the header \<^verbatim>\<open>A/1\<close> give one duplicate
  and an index holding the first occurrence only (offset 0).
\<close>

theorem left_record_duplicate:
  "(deduplicate opt
      \<and> normalize_id (MAXLINELEN pf + 1) (strip_line (splitspace opt) (line s)) = Inr key
      \<and> bucket pf opt key = Inr b
      \<and> key \<in> id_str ` set (ids_left s ! b)
    \<longrightarrow> (\<exists>s'. left_record pf opt L s = Inr s' \<and> ids_left s' = ids_left s
             \<and> left_duplicates_counter s' = left_duplicates_counter s + 1))
   \<and> (\<exists>s'. left_loop \<lparr>MAXLINELEN = 100, char_signed = True\<rparr>
              \<lparr>tablesize = 3, deduplicate = True, splitspace = False, formatid = False\<rparr>
              ''A/1\<newline>AC\<newline>+\<newline>II\<newline>A/1\<newline>GG\<newline>+\<newline>JJ\<newline>''
              (init_locals \<lparr>tablesize = 3, deduplicate = True, splitspace = False, formatid = False\<rparr> (\<lambda>b. False) (\<lambda>b. False) [])
            = Inr s'
          \<and> left_duplicates_counter s' = 1
          \<and> concat (ids_left s') = [\<lparr>id_str = ''A/'', pos = 0, printed = False\<rparr>])"
proof (intro conjI impI)
  assume "deduplicate opt
      \<and> normalize_id (MAXLINELEN pf + 1) (strip_line (splitspace opt) (line s)) = Inr key
      \<and> bucket pf opt key = Inr b
      \<and> key \<in> id_str ` set (ids_left s ! b)"
  then show "\<exists>s'. left_record pf opt L s = Inr s' \<and> ids_left s' = ids_left s
             \<and> left_duplicates_counter s' = left_duplicates_counter s + 1"
    by (simp add: left_record_def Let_def find_existing_iff del: skip_lines.simps)
next
  let ?pf = "\<lparr>MAXLINELEN = 100, char_signed = True\<rparr>"
  let ?opt = "\<lparr>tablesize = 3, deduplicate = True, splitspace = False, formatid = False\<rparr>"
  let ?L = "''A/1\<newline>AC\<newline>+\<newline>II\<newline>A/1\<newline>GG\<newline>+\<newline>JJ\<newline>''"
  have "left_duplicates_counter (projr (left_loop ?pf ?opt ?L (init_locals ?opt (\<lambda>b. False) (\<lambda>b. False) []))) = 1"
    "concat (ids_left (projr (left_loop ?pf ?opt ?L (init_locals ?opt (\<lambda>b. False) (\<lambda>b. False) []))))
       = [\<lparr>id_str = ''A/'', pos = 0, printed = False\<rparr>]"
    "isl (left_loop ?pf ?opt ?L (init_locals ?opt (\<lambda>b. False) (\<lambda>b. False) [])) = False"
    by code_simp+
  then show "\<exists>s'. left_loop ?pf ?opt ?L (init_locals ?opt (\<lambda>b. False) (\<lambda>b. False) []) = Inr s'
          \<and> left_duplicates_counter s' = 1
          \<and> concat (ids_left s') = [\<lparr>id_str = ''A/'', pos = 0, printed = False\<rparr>]"
    by (cases "left_loop ?pf ?opt ?L (init_locals ?opt (\<lambda>b. False) (\<lambda>b. False) [])") simp_all
qed

theorem left_record_duplicate_witness:
  "\<exists>s'. left_record \<lparr>MAXLINELEN = 100, char_signed = True\<rparr>
      \<lparr>tablesize = 1, deduplicate = True, splitspace = False, formatid = False\<rparr> []
      ((init_locals \<lparr>tablesize = 1, deduplicate = True, splitspace = False, formatid = False\<rparr> (\<lambda>b. False) (\<lambda>b. False) [])
         \<lparr>line := ''A/1\<newline>'', ids_left := [[\<lparr>id_str = ''A/'', pos = 0, printed = False\<rparr>]]\<rparr>) = Inr s'
     \<and> ids_left s' = [[\<lparr>id_str = ''A/'', pos = 0, printed = False\<rparr>]]
     \<and> left_duplicates_counter s' = 1"
  using left_record_duplicate [of "\<lparr>tablesize = 1, deduplicate = True, splitspace = False, formatid = False\<rparr>"
      "\<lparr>MAXLINELEN = 100, char_signed = True\<rparr>"
      "(init_locals \<lparr>tablesize = 1, deduplicate = True, splitspace = False, formatid = False\<rparr> (\<lambda>b. False) (\<lambda>b. False) [])
         \<lparr>line := ''A/1\<newline>'', ids_left := [[\<lparr>id_str = ''A/'', pos = 0, printed = False\<rparr>]]\<rparr>"
      "''A/''" 0 "[]"]
  by (simp add: init_locals_def normalize_id_def strip_line_def strcspn_def bucket_def Let_def)

subsection \<open>The matcher\<close>

lemma left_lines_length:
  "length (snd (left_lines k i n content fmt ident st)) = length (snd st) + k"
  by (induction k i n content fmt ident st rule: left_lines.induct)
     (simp_all add: Let_def writeToFile_def)

lemma right_lines_length:
  "length (snd (right_lines k n content st)) = length (snd st) + k"
  by (induction k n content st rule: right_lines.induct)
     (simp_all add: Let_def writeToFile_def)

lemma mark_printed_all:
  "\<forall>e \<in> set (map (mark_printed key) chain). id_str e = key \<longrightarrow> printed e"
  by simp (simp add: mark_printed_def)

lemma last_matching_insert_all:
  assumes "b < length tbl" and "tbl ! b = []"
    and "matching key (insert_all tbl b kps ! b) \<noteq> []"
  shows "last (matching key (insert_all tbl b kps ! b))
       = \<lparr>id_str = key, pos = snd (hd (filter (\<lambda>kp. fst kp = key) kps)), printed = False\<rparr>"
proof -
  let ?f = "filter (\<lambda>kp. fst kp = key) kps"
  note m = matching_insert_all [OF assms(1,2), of key kps]
  with assms(3) have ne: "?f \<noteq> []" by auto
  then have "hd ?f \<in> set ?f" by (rule hd_in_set)
  then have k: "fst (hd ?f) = key" by simp
  from ne show ?thesis
    unfolding m by (simp add: last_rev hd_map k)
qed

text \<open>
  C2: take a record of the second file that is looked up in the index: its header has the id
  \<open>key\<close>, which hashes to bucket \<open>b\<close>, it is not discarded as a duplicate, and the chains it
  walks end in null pointers. The iteration succeeds, and in the state it leaves the chain
  of bucket \<open>b\<close> has been walked to its end: every entry of the chain whose id equals the key
  has its flag set, the other entries and the other buckets are as before. The offset used
  is that of the last entry of the chain, from the head, with that id: when there is one
  (and its offset is not the sentinel \<open>-1\<close>) the left record is read again at that offset
  and a pair is written and counted, otherwise the record goes to right-single. In a chain
  built by insertions at the head of an empty bucket the last matching entry is the one
  inserted first.
\<close>

theorem right_record_lookup:
  assumes "normalize_id (MAXLINELEN pf + 1) (strip_line (splitspace opt) (line s)) = Inr key"
    and "bucket pf opt key = Inr b" and "b < length (ids_left s)"
    and "\<not> (deduplicate opt \<and> key \<in> id_str ` set (ids_right s ! b))"
    and "\<not> wild_left s b" and "\<not> (deduplicate opt \<and> wild_right s b)"
  shows "\<exists>s'. right_record pf opt L R s = Inr s'
     \<and> ids_left s' = (ids_left s)[b := map (mark_printed key) (ids_left s ! b)]
     \<and> (\<forall>e \<in> set (ids_left s' ! b). id_str e = key \<longrightarrow> printed e)
     \<and> (if matching key (ids_left s ! b) \<noteq> [] \<and> pos (last (matching key (ids_left s ! b))) \<noteq> - 1
         then left_paired s' =
                snd (left_lines 4 0 (MAXLINELEN pf) L (formatid opt) key
                       ((nat (pos (last (matching key (ids_left s ! b)))), key), left_paired s))
              \<and> left_paired_counter s' = left_paired_counter s + 1
              \<and> right_paired_counter s' = right_paired_counter s + 1
              \<and> length (right_paired s') = length (right_paired s) + 4
              \<and> right_single s' = right_single s
         else left_paired s' = left_paired s \<and> right_paired s' = right_paired s
              \<and> left_paired_counter s' = left_paired_counter s
              \<and> right_single_counter s' = right_single_counter s + 1
              \<and> length (right_single s') = length (right_single s) + 4)
     \<and> (b' < length tbl \<and> tbl ! b' = [] \<and> matching key (insert_all tbl b' kps ! b') \<noteq> [] \<longrightarrow>
          last (matching key (insert_all tbl b' kps ! b'))
            = \<lparr>id_str = key, pos = snd (hd (filter (\<lambda>kp. fst kp = key) kps)), printed = False\<rparr>)"
proof -
  let ?chain = "ids_left s ! b"
  let ?ms = "matching key ?chain"
  let ?posn = "if ?ms = [] then - 1 else pos (last ?ms)"
  let ?s1 = "if deduplicate opt
             then s\<lparr>ids_right := insert_head (ids_right s) b key (nextposition s)\<rparr> else s"
  let ?s2 = "?s1\<lparr>line := key, ids_left := (ids_left s)[b := map (mark_printed key) ?chain]\<rparr>"
  let ?header = "if formatid opt then catstr key ''2\<newline>'' else line s"
  let ?rst = "right_lines 3 (MAXLINELEN pf) R ((rfp s, key), writeToFile (right_single s) ?header)"
  let ?single = "?s2\<lparr>line := snd (fst ?rst), rfp := fst (fst ?rst), right_single := snd ?rst,
                     right_single_counter := right_single_counter s + 1\<rparr>"
  let ?pair = "emit_right_mate pf R ?header (emit_left_mate pf opt L key ?posn ?s2)"
  let ?s' = "if ?posn \<noteq> - 1 then ?pair else ?single"
  have run: "right_record pf opt L R s = Inr ?s'"
    using assms
    by (auto simp add: right_record_def Let_def dupstr_def find_existing_iff lookup_chain_eq
        simp del: right_lines.simps left_lines.simps)
  have il: "ids_left ?s' = (ids_left s)[b := map (mark_printed key) ?chain]"
    by (simp add: emit_left_mate_def emit_right_mate_def Let_def del: right_lines.simps left_lines.simps)
  have fl: "\<forall>e \<in> set (ids_left ?s' ! b). id_str e = key \<longrightarrow> printed e"
    unfolding il using assms(3) mark_printed_all [of key ?chain] by simp
  have out: "if ?ms \<noteq> [] \<and> pos (last ?ms) \<noteq> - 1
         then left_paired ?s' =
                snd (left_lines 4 0 (MAXLINELEN pf) L (formatid opt) key
                       ((nat (pos (last ?ms)), key), left_paired s))
              \<and> left_paired_counter ?s' = left_paired_counter s + 1
              \<and> right_paired_counter ?s' = right_paired_counter s + 1
              \<and> length (right_paired ?s') = length (right_paired s) + 4
              \<and> right_single ?s' = right_single s
         else left_paired ?s' = left_paired s \<and> right_paired ?s' = right_paired s
              \<and> left_paired_counter ?s' = left_paired_counter s
              \<and> right_single_counter ?s' = right_single_counter s + 1
              \<and> length (right_single ?s') = length (right_single s) + 4"
    by (simp add: emit_left_mate_def emit_right_mate_def Let_def right_lines_length writeToFile_def
        del: right_lines.simps left_lines.simps)
  have ins: "b' < length tbl \<and> tbl ! b' = [] \<and> matching key (insert_all tbl b' kps ! b') \<noteq> [] \<longrightarrow>
          last (matching key (insert_all tbl b' kps ! b'))
            = \<lparr>id_str = key, pos = snd (hd (filter (\<lambda>kp. fst kp = key) kps)), printed = False\<rparr>"
    using last_matching_insert_all [of b' tbl key kps] by blast
  show ?thesis
    by (rule exI [of _ ?s']) (intro conjI run il fl out ins)
qed

theorem right_record_lookup_witness:
  "\<exists>s'. right_record \<lparr>MAXLINELEN = 100, char_signed = True\<rparr>
       \<lparr>tablesize = 1, deduplicate = False, splitspace = False, formatid = False\<rparr>
       ''@A/1\<newline>AC\<newline>+\<newline>II\<newline>@A/1\<newline>GG\<newline>+\<newline>JJ\<newline>''
       ''@A/2\<newline>TT\<newline>+\<newline>KK\<newline>''
       ((init_locals \<lparr>tablesize = 1, deduplicate = False, splitspace = False, formatid = False\<rparr>
           (\<lambda>b. False) (\<lambda>b. False) [])
        \<lparr>line := ''@A/2\<newline>'', rfp := 5,
          ids_left := [[\<lparr>id_str = ''@A/'', pos = 13, printed = False\<rparr>,
                        \<lparr>id_str = ''@B/'', pos = 26, printed = False\<rparr>,
                        \<lparr>id_str = ''@A/'', pos = 0, printed = False\<rparr>]]\<rparr>) = Inr s'
     \<and> ids_left s' = [[\<lparr>id_str = ''@A/'', pos = 13, printed = True\<rparr>,
                        \<lparr>id_str = ''@B/'', pos = 26, printed = False\<rparr>,
                        \<lparr>id_str = ''@A/'', pos = 0, printed = True\<rparr>]]
     \<and> left_paired s' = [''@A/1\<newline>'', ''AC\<newline>'', ''+\<newline>'', ''II\<newline>'']"
proof -
  let ?pf = "\<lparr>MAXLINELEN = 100, char_signed = True\<rparr>"
  let ?opt = "\<lparr>tablesize = 1, deduplicate = False, splitspace = False, formatid = False\<rparr>"
  let ?L = "''@A/1\<newline>AC\<newline>+\<newline>II\<newline>@A/1\<newline>GG\<newline>+\<newline>JJ\<newline>''"
  let ?R = "''@A/2\<newline>TT\<newline>+\<newline>KK\<newline>''"
  let ?chain = "[\<lparr>id_str = ''@A/'', pos = 13, printed = False\<rparr>,
                 \<lparr>id_str = ''@B/'', pos = 26, printed = False\<rparr>,
                 \<lparr>id_str = ''@A/'', pos = 0, printed = False\<rparr>]"
  let ?s = "(init_locals ?opt (\<lambda>b. False) (\<lambda>b. False) [])
              \<lparr>line := ''@A/2\<newline>'', rfp := 5, ids_left := [?chain]\<rparr>"
  have k: "normalize_id (MAXLINELEN ?pf + 1) (strip_line (splitspace ?opt) (line ?s)) = Inr ''@A/''"
    by (simp add: normalize_id_def strip_line_def strcspn_def Let_def)
  have b: "bucket ?pf ?opt ''@A/'' = Inr 0"
    by (simp add: bucket_def)
  have ll: "snd (left_lines 4 0 100 ?L False ''@A/'' ((0, ''@A/''), []))
      = [''@A/1\<newline>'', ''AC\<newline>'', ''+\<newline>'', ''II\<newline>'']"
    by code_simp
  have h: "0 < length (ids_left ?s)"
    "\<not> (deduplicate ?opt \<and> ''@A/'' \<in> id_str ` set (ids_right ?s ! 0))"
    "\<not> wild_left ?s 0" "\<not> (deduplicate ?opt \<and> wild_right ?s 0)"
    by (simp_all add: init_locals_def)
  from right_record_lookup [OF k b h, of ?L ?R 0 "[[]]" "[]"] show ?thesis
    by (simp add: matching_def mark_printed_def ll init_locals_def del: left_lines.simps)
      (elim exE conjE, intro exI conjI; assumption)
qed

subsection \<open>The paired counters\<close>

lemma left_record_paired:
  assumes "left_record pf opt L s = Inr s'"
  shows "left_paired_counter s' = left_paired_counter s"
    and "right_paired_counter s' = right_paired_counter s"
    and "left_paired s' = left_paired s" and "right_paired s' = right_paired s"
  using assms unfolding left_record_def Let_def
  by (auto simp del: skip_lines.simps split: sum.splits if_splits)

lemma right_record_paired:
  assumes "right_record pf opt L R s = Inr s'"
  shows "(left_paired_counter s' = left_paired_counter s + 1
          \<and> right_paired_counter s' = right_paired_counter s + 1
          \<and> length (left_paired s') = length (left_paired s) + 4
          \<and> length (right_paired s') = length (right_paired s) + 4)
       \<or> (left_paired_counter s' = left_paired_counter s
          \<and> right_paired_counter s' = right_paired_counter s
          \<and> left_paired s' = left_paired s \<and> right_paired s' = right_paired s)"
  using assms unfolding right_record_def emit_left_mate_def emit_right_mate_def Let_def
  by (auto simp del: skip_lines.simps left_lines.simps right_lines.simps
      simp add: left_lines_length right_lines_length writeToFile_def
      split: sum.splits if_splits)

lemma emit_mate_counters:
  "left_paired_counter (emit_left_mate pf opt L ident posn s) = left_paired_counter s + 1"
  "right_paired_counter (emit_left_mate pf opt L ident posn s) = right_paired_counter s"
  "left_paired_counter (emit_right_mate pf R header s) = left_paired_counter s"
  "right_paired_counter (emit_right_mate pf R header s) = right_paired_counter s + 1"
  by (simp_all add: emit_left_mate_def emit_right_mate_def Let_def del: left_lines.simps right_lines.simps)


lemma left_loop_paired:
  "left_loop pf opt L s = Inr s' \<Longrightarrow>
   left_paired_counter s' = left_paired_counter s \<and> right_paired_counter s' = right_paired_counter s"
proof (induction pf opt L s rule: left_loop.induct)
  case (1 pf opt L s)
  show ?case
  proof (cases "fgets (MAXLINELEN pf) L (lfp s)")
    case None
    with "1.prems" show ?thesis by (simp add: left_loop.simps)
  next
    case (Some x)
    obtain l p where x: "x = (l, p)" by (cases x)
    from "1.prems" Some x obtain s1 where
      s1: "left_record pf opt L (s\<lparr>line := l, lfp := p\<rparr>) = Inr s1"
      and loop: "left_loop pf opt L s1 = Inr s'"
      by (auto simp: left_loop.simps [of pf opt L s] split: sum.splits)
    from "1.IH" [OF Some x [symmetric] s1 loop] left_record_paired(1,2) [OF s1]
    show ?thesis by simp
  qed
qed

lemma right_loop_paired:
  "right_loop pf opt L R s = Inr s' \<Longrightarrow>
   left_paired_counter s' - left_paired_counter s = right_paired_counter s' - right_paired_counter s"
proof (induction pf opt L R s rule: right_loop.induct)
  case (1 pf opt L R s)
  show ?case
  proof (cases "fgets (MAXLINELEN pf) R (rfp s)")
    case None
    with "1.prems" show ?thesis by (simp add: right_loop.simps)
  next
    case (Some x)
    obtain l p where x: "x = (l, p)" by (cases x)
    from "1.prems" Some x obtain s1 where
      s1: "right_record pf opt L R (s\<lparr>line := l, rfp := p\<rparr>) = Inr s1"
      and loop: "right_loop pf opt L R s1 = Inr s'"
      by (auto simp: right_loop.simps [of pf opt L R s] split: sum.splits)
    from "1.IH" [OF Some x [symmetric] s1 loop] right_record_paired [OF s1]
    show ?thesis by auto
  qed
qed

lemma emit_chain_paired:
  "left_paired_counter (emit_chain pf opt L chain s) = left_paired_counter s
   \<and> right_paired_counter (emit_chain pf opt L chain s) = right_paired_counter s"
  by (induction chain arbitrary: s) (simp_all add: Let_def del: left_lines.simps)

lemma emit_table_paired:
  "left_paired_counter (emit_table pf opt L tbl s) = left_paired_counter s
   \<and> right_paired_counter (emit_table pf opt L tbl s) = right_paired_counter s"
  by (induction tbl arbitrary: s) (simp_all add: emit_chain_paired)

lemma pair_files_paired:
  assumes "pair_files pf opt wl wr buf L R = Inr r"
  shows "n_left_paired r = n_right_paired r"
proof -
  from assms obtain s1 s2 where
    s1: "left_loop pf opt L (init_locals opt wl wr buf) = Inr s1"
    and s2: "right_loop pf opt L R (s1\<lparr>nextposition := 0\<rparr>) = Inr s2"
    and r: "r = report (emit_table pf opt L (ids_left s2) s2)"
    by (auto simp: pair_files_def sweep_def split: if_splits sum.splits)
  from left_loop_paired [OF s1] have "left_paired_counter s1 = 0" "right_paired_counter s1 = 0"
    by (simp_all add: init_locals_def)
  with right_loop_paired [OF s2] have "left_paired_counter s2 = right_paired_counter s2"
    by simp
  then show ?thesis
    by (simp add: r report_def emit_table_paired)
qed


text \<open>
  C5, as stated: the two paired counters are equal at every point of a run. This fails
  inside the iteration that emits a pair: the code adds one to \<open>left_paired_counter\<close> before it
  copies the four lines of the left record, and adds one to \<open>right_paired_counter\<close> only after
  it has written the header of the right record. On a first file with the records \<open>@A/1\<close>,
  \<open>@B/1\<close> and a second file starting with \<open>@A/2\<close>, the first loop returns, the matching loop
  reads the header \<open>@A/2\<close> from offset 0, and its first iteration is a pair emission; the
  state between the two halves of that emission has \<open>left_paired_counter = 1\<close> and
  \<open>right_paired_counter = 0\<close>.
\<close>

theorem paired_counters_differ_counterexample:
  "\<not> isl (left_loop \<lparr>MAXLINELEN = 100, char_signed = True\<rparr>
      \<lparr>tablesize = 1, deduplicate = False, splitspace = False, formatid = False\<rparr>
      ''@A/1\<newline>AC\<newline>+\<newline>II\<newline>@B/1\<newline>GG\<newline>+\<newline>JJ\<newline>''
      (init_locals \<lparr>tablesize = 1, deduplicate = False, splitspace = False, formatid = False\<rparr>
         all_null all_null []))
   \<and> rfp (projr (left_loop \<lparr>MAXLINELEN = 100, char_signed = True\<rparr>
      \<lparr>tablesize = 1, deduplicate = False, splitspace = False, formatid = False\<rparr>
      ''@A/1\<newline>AC\<newline>+\<newline>II\<newline>@B/1\<newline>GG\<newline>+\<newline>JJ\<newline>''
      (init_locals \<lparr>tablesize = 1, deduplicate = False, splitspace = False, formatid = False\<rparr>
         all_null all_null []))) = 0
   \<and> fgets 100 ''@A/2\<newline>TT\<newline>+\<newline>KK\<newline>@C/2\<newline>CC\<newline>+\<newline>LL\<newline>'' 0 = Some (''@A/2\<newline>'', 5)
   \<and> right_record \<lparr>MAXLINELEN = 100, char_signed = True\<rparr>
      \<lparr>tablesize = 1, deduplicate = False, splitspace = False, formatid = False\<rparr>
      ''@A/1\<newline>AC\<newline>+\<newline>II\<newline>@B/1\<newline>GG\<newline>+\<newline>JJ\<newline>''
      ''@A/2\<newline>TT\<newline>+\<newline>KK\<newline>@C/2\<newline>CC\<newline>+\<newline>LL\<newline>''
      ((projr (left_loop \<lparr>MAXLINELEN = 100, char_signed = True\<rparr>
          \<lparr>tablesize = 1, deduplicate = False, splitspace = False, formatid = False\<rparr>
          ''@A/1\<newline>AC\<newline>+\<newline>II\<newline>@B/1\<newline>GG\<newline>+\<newline>JJ\<newline>''
          (init_locals \<lparr>tablesize = 1, deduplicate = False, splitspace = False, formatid = False\<rparr>
             all_null all_null [])))
        \<lparr>nextposition := 0, line := ''@A/2\<newline>'', rfp := 5\<rparr>)
    = Inr (emit_right_mate \<lparr>MAXLINELEN = 100, char_signed = True\<rparr>
        ''@A/2\<newline>TT\<newline>+\<newline>KK\<newline>@C/2\<newline>CC\<newline>+\<newline>LL\<newline>'' ''@A/2\<newline>''
        (emit_left_mate \<lparr>MAXLINELEN = 100, char_signed = True\<rparr>
          \<lparr>tablesize = 1, deduplicate = False, splitspace = False, formatid = False\<rparr>
          ''@A/1\<newline>AC\<newline>+\<newline>II\<newline>@B/1\<newline>GG\<newline>+\<newline>JJ\<newline>'' ''@A/'' 0
          ((projr (left_loop \<lparr>MAXLINELEN = 100, char_signed = True\<rparr>
              \<lparr>tablesize = 1, deduplicate = False, splitspace = False, formatid = False\<rparr>
              ''@A/1\<newline>AC\<newline>+\<newline>II\<newline>@B/1\<newline>GG\<newline>+\<newline>JJ\<newline>''
              (init_locals \<lparr>tablesize = 1, deduplicate = False, splitspace = False, formatid = False\<rparr>
                 all_null all_null [])))
            \<lparr>nextposition := 0, rfp := 5, line := ''@A/'',
              ids_left := [[\<lparr>id_str = ''@B/'', pos = 13, printed = False\<rparr>,
                            \<lparr>id_str = ''@A/'', pos = 0, printed = True\<rparr>]]\<rparr>)))
   \<and> left_paired_counter
        (emit_left_mate \<lparr>MAXLINELEN = 100, char_signed = True\<rparr>
          \<lparr>tablesize = 1, deduplicate = False, splitspace = False, formatid = False\<rparr>
          ''@A/1\<newline>AC\<newline>+\<newline>II\<newline>@B/1\<newline>GG\<newline>+\<newline>JJ\<newline>'' ''@A/'' 0
          ((projr (left_loop \<lparr>MAXLINELEN = 100, char_signed = True\<rparr>
              \<lparr>tablesize = 1, deduplicate = False, splitspace = False, formatid = False\<rparr>
              ''@A/1\<newline>AC\<newline>+\<newline>II\<newline>@B/1\<newline>GG\<newline>+\<newline>JJ\<newline>''
              (init_locals \<lparr>tablesize = 1, deduplicate = False, splitspace = False, formatid = False\<rparr>
                 all_null all_null [])))
            \<lparr>nextposition := 0, rfp := 5, line := ''@A/'',
              ids_left := [[\<lparr>id_str = ''@B/'', pos = 13, printed = False\<rparr>,
                            \<lparr>id_str = ''@A/'', pos = 0, printed = True\<rparr>]]\<rparr>)) = 1
   \<and> right_paired_counter
        (emit_left_mate \<lparr>MAXLINELEN = 100, char_signed = True\<rparr>
          \<lparr>tablesize = 1, deduplicate = False, splitspace = False, formatid = False\<rparr>
          ''@A/1\<newline>AC\<newline>+\<newline>II\<newline>@B/1\<newline>GG\<newline>+\<newline>JJ\<newline>'' ''@A/'' 0
          ((projr (left_loop \<lparr>MAXLINELEN = 100, char_signed = True\<rparr>
              \<lparr>tablesize = 1, deduplicate = False, splitspace = False, formatid = False\<rparr>
              ''@A/1\<newline>AC\<newline>+\<newline>II\<newline>@B/1\<newline>GG\<newline>+\<newline>JJ\<newline>''
              (init_locals \<lparr>tablesize = 1, deduplicate = False, splitspace = False, formatid = False\<rparr>
                 all_null all_null [])))
            \<lparr>nextposition := 0, rfp := 5, line := ''@A/'',
              ids_left := [[\<lparr>id_str = ''@B/'', pos = 13, printed = False\<rparr>,
                            \<lparr>id_str = ''@A/'', pos = 0, printed = True\<rparr>]]\<rparr>)) = 0"
proof (intro conjI)
  let ?pf = "\<lparr>MAXLINELEN = 100, char_signed = True\<rparr>"
  let ?opt = "\<lparr>tablesize = 1, deduplicate = False, splitspace = False, formatid = False\<rparr>"
  let ?L = "''@A/1\<newline>AC\<newline>+\<newline>II\<newline>@B/1\<newline>GG\<newline>+\<newline>JJ\<newline>''"
  let ?R = "''@A/2\<newline>TT\<newline>+\<newline>KK\<newline>@C/2\<newline>CC\<newline>+\<newline>LL\<newline>''"
  let ?s0 = "projr (left_loop ?pf ?opt ?L (init_locals ?opt all_null all_null []))"
  let ?tbl' = "[[\<lparr>id_str = ''@B/'', pos = 13, printed = False\<rparr>,
                 \<lparr>id_str = ''@A/'', pos = 0, printed = True\<rparr>]]"
  let ?mid = "emit_left_mate ?pf ?opt ?L ''@A/'' 0
     (?s0\<lparr>nextposition := 0, rfp := 5, line := ''@A/'', ids_left := ?tbl'\<rparr>)"
  show "\<not> isl (left_loop ?pf ?opt ?L (init_locals ?opt all_null all_null []))"
    by code_simp
  show "rfp ?s0 = 0"
    by code_simp
  show "fgets 100 ?R 0 = Some (''@A/2\<newline>'', 5)"
    by code_simp
  have n: "normalize_id 101 (strip_line False ''@A/2\<newline>'') = Inr ''@A/''"
    by code_simp
  have b: "bucket ?pf ?opt ''@A/'' = Inr 0"
    by code_simp
  have t: "ids_left ?s0 = [[\<lparr>id_str = ''@B/'', pos = 13, printed = False\<rparr>,
                            \<lparr>id_str = ''@A/'', pos = 0, printed = False\<rparr>]]"
    by code_simp
  have w: "\<not> wild_left ?s0 0"
    by code_simp
  show "right_record ?pf ?opt ?L ?R (?s0\<lparr>nextposition := 0, line := ''@A/2\<newline>'', rfp := 5\<rparr>)
    = Inr (emit_right_mate ?pf ?R ''@A/2\<newline>'' ?mid)"
    by (simp add: right_record_def dupstr_def n b t w Let_def)
  show "left_paired_counter ?mid = 1"
    by code_simp
  show "right_paired_counter ?mid = 0"
    by code_simp
qed


text \<open>
  C5, amended: the two paired counters are equal at every loop boundary of a run, and the
  counters a run reports are equal. Indexing a record of the first file and the final sweep
  change neither counter; an iteration of the matching loop either emits a pair, four lines
  to each paired output, and adds one to both counters, or changes neither; so the matching
  loop keeps them equal. Inside a pair emission the two additions are separate: copying the
  left record adds one to \<open>left_paired_counter\<close> only, and copying the right record adds one
  to \<open>right_paired_counter\<close> only, so between the two the left counter is ahead by one.
\<close>

theorem paired_counters_equal:
  "(left_record pf opt L a = Inr a' \<longrightarrow>
      left_paired_counter a' = left_paired_counter a \<and> right_paired_counter a' = right_paired_counter a)
   \<and> (right_record pf opt L R b = Inr b' \<longrightarrow>
        (left_paired_counter b' = left_paired_counter b + 1
          \<and> right_paired_counter b' = right_paired_counter b + 1
          \<and> length (left_paired b') = length (left_paired b) + 4
          \<and> length (right_paired b') = length (right_paired b) + 4)
        \<or> (left_paired_counter b' = left_paired_counter b
          \<and> right_paired_counter b' = right_paired_counter b
          \<and> left_paired b' = left_paired b \<and> right_paired b' = right_paired b))
   \<and> left_paired_counter (emit_table pf opt L tbl c) = left_paired_counter c
   \<and> right_paired_counter (emit_table pf opt L tbl c) = right_paired_counter c
   \<and> (left_loop pf opt L g = Inr g' \<and> left_paired_counter g = right_paired_counter g \<longrightarrow>
        left_paired_counter g' = right_paired_counter g')
   \<and> (right_loop pf opt L R d = Inr d' \<and> left_paired_counter d = right_paired_counter d \<longrightarrow>
        left_paired_counter d' = right_paired_counter d')
   \<and> (pair_files pf opt wl wr buf L R = Inr r \<longrightarrow> n_left_paired r = n_right_paired r)
   \<and> left_paired_counter (emit_left_mate pf opt L ident posn e) = left_paired_counter e + 1
   \<and> right_paired_counter (emit_left_mate pf opt L ident posn e) = right_paired_counter e
   \<and> left_paired_counter (emit_right_mate pf R header f) = left_paired_counter f
   \<and> right_paired_counter (emit_right_mate pf R header f) = right_paired_counter f + 1"
proof (intro conjI impI)
  assume "left_record pf opt L a = Inr a'"
  then show "left_paired_counter a' = left_paired_counter a"
    and "right_paired_counter a' = right_paired_counter a"
    by (rule left_record_paired)+
next
  assume "right_record pf opt L R b = Inr b'"
  then show "(left_paired_counter b' = left_paired_counter b + 1
          \<and> right_paired_counter b' = right_paired_counter b + 1
          \<and> length (left_paired b') = length (left_paired b) + 4
          \<and> length (right_paired b') = length (right_paired b) + 4)
        \<or> (left_paired_counter b' = left_paired_counter b
          \<and> right_paired_counter b' = right_paired_counter b
          \<and> left_paired b' = left_paired b \<and> right_paired b' = right_paired b)"
    by (rule right_record_paired)
next
  show "left_paired_counter (emit_table pf opt L tbl c) = left_paired_counter c"
    and "right_paired_counter (emit_table pf opt L tbl c) = right_paired_counter c"
    by (simp_all add: emit_table_paired)
next
  assume "left_loop pf opt L g = Inr g' \<and> left_paired_counter g = right_paired_counter g"
  with left_loop_paired [of pf opt L g g']
  show "left_paired_counter g' = right_paired_counter g'" by simp
next
  assume "right_loop pf opt L R d = Inr d' \<and> left_paired_counter d = right_paired_counter d"
  with right_loop_paired [of pf opt L R d d']
  show "left_paired_counter d' = right_paired_counter d'" by simp
next
  assume "pair_files pf opt wl wr buf L R = Inr r"
  then show "n_left_paired r = n_right_paired r"
    by (rule pair_files_paired)
next
  show "left_paired_counter (emit_left_mate pf opt L ident posn e) = left_paired_counter e + 1"
    and "right_paired_counter (emit_left_mate pf opt L ident posn e) = right_paired_counter e"
    and "left_paired_counter (emit_right_mate pf R header f) = left_paired_counter f"
    and "right_paired_counter (emit_right_mate pf R header f) = right_paired_counter f + 1"
    by (rule emit_mate_counters)+
qed

theorem paired_counters_equal_witness:
  "n_left_paired (projr (pair_files \<lparr>MAXLINELEN = 100, char_signed = True\<rparr>
      \<lparr>tablesize = 3, deduplicate = False, splitspace = False, formatid = False\<rparr>
      (\<lambda>b. False) (\<lambda>b. False) []
      ''@A/1\<newline>AC\<newline>+\<newline>II\<newline>@B/1\<newline>GG\<newline>+\<newline>JJ\<newline>''
      ''@A/2\<newline>TT\<newline>+\<newline>KK\<newline>@C/2\<newline>CC\<newline>+\<newline>LL\<newline>'')) = 1
   \<and> n_right_paired (projr (pair_files \<lparr>MAXLINELEN = 100, char_signed = True\<rparr>
      \<lparr>tablesize = 3, deduplicate = False, splitspace = False, formatid = False\<rparr>
      (\<lambda>b. False) (\<lambda>b. False) []
      ''@A/1\<newline>AC\<newline>+\<newline>II\<newline>@B/1\<newline>GG\<newline>+\<newline>JJ\<newline>''
      ''@A/2\<newline>TT\<newline>+\<newline>KK\<newline>@C/2\<newline>CC\<newline>+\<newline>LL\<newline>'')) = 1"
proof -
  let ?pf = "\<lparr>MAXLINELEN = 100, char_signed = True\<rparr>"
  let ?opt = "\<lparr>tablesize = 3, deduplicate = False, splitspace = False, formatid = False\<rparr>"
  let ?L = "''@A/1\<newline>AC\<newline>+\<newline>II\<newline>@B/1\<newline>GG\<newline>+\<newline>JJ\<newline>''"
  let ?R = "''@A/2\<newline>TT\<newline>+\<newline>KK\<newline>@C/2\<newline>CC\<newline>+\<newline>LL\<newline>''"
  let ?nw = "\<lambda>b::nat. False"
  let ?i = "init_locals ?opt ?nw ?nw []"
  let ?a = "?i\<lparr>line := ''@A/1\<newline>'', lfp := 5\<rparr>"
  let ?b = "(projr (left_loop ?pf ?opt ?L ?i))\<lparr>line := ''@A/2\<newline>'', rfp := 5, nextposition := 0\<rparr>"
  let ?d = "(projr (left_loop ?pf ?opt ?L ?i))\<lparr>nextposition := 0\<rparr>"
  have a: "\<not> isl (left_record ?pf ?opt ?L ?a)"
    by code_simp
  have b: "\<not> isl (right_record ?pf ?opt ?L ?R ?b)"
    by code_simp
  have g: "\<not> isl (left_loop ?pf ?opt ?L ?i)" "left_paired_counter ?i = right_paired_counter ?i"
    by code_simp+
  have d: "\<not> isl (right_loop ?pf ?opt ?L ?R ?d)"
    "left_paired_counter ?d = right_paired_counter ?d"
    by code_simp+
  have r: "\<not> isl (pair_files ?pf ?opt ?nw ?nw [] ?L ?R)"
    "n_left_paired (projr (pair_files ?pf ?opt ?nw ?nw [] ?L ?R)) = 1"
    by code_simp+
  from paired_counters_equal [of ?pf ?opt ?L ?a "projr (left_record ?pf ?opt ?L ?a)" ?R
      ?b "projr (right_record ?pf ?opt ?L ?R ?b)" "ids_left ?d" ?d ?i
      "projr (left_loop ?pf ?opt ?L ?i)" ?d
      "projr (right_loop ?pf ?opt ?L ?R ?d)" ?nw ?nw "[]"
      "projr (pair_files ?pf ?opt ?nw ?nw [] ?L ?R)"] a b g d r
  show ?thesis by (simp add: sum.collapse(2))
qed

subsection \<open>Reading lines\<close>

lemma take_line_body:
  "CHR 0x0A \<notin> set body \<Longrightarrow> length body < k \<Longrightarrow>
   take_line k (body @ CHR 0x0A # rest) = body @ [CHR 0x0A]"
proof (induction body arbitrary: k)
  case Nil
  then show ?case by (cases k) simp_all
next
  case (Cons c body)
  then show ?case by (cases k) auto
qed

lemma wf_line_split:
  assumes "wf_line n l"
  obtains body where "l = body @ [CHR 0x0A]" and "CHR 0x0A \<notin> set body" and "length body + 1 < n"
    and "CHR 0x00 \<notin> set l"
proof -
  from assms have "l \<noteq> []" by (simp add: wf_line_def)
  then have "l = butlast l @ [last l]" by simp
  with assms that [of "butlast l"] show thesis
    by (simp add: wf_line_def)
qed

lemma c_str_no_NUL: "CHR 0x00 \<notin> set l \<Longrightarrow> c_str l = l"
  by (auto simp: c_str_def takeWhile_eq_all_conv)

lemma fgets_wf_line:
  assumes "wf_line n l"
  shows "fgets n (pre @ l @ post) (length pre) = Some (l, length pre + length l)"
proof -
  from assms obtain body where l: "l = body @ [CHR 0x0A]" and b: "CHR 0x0A \<notin> set body"
    and n: "length body + 1 < n" and z: "CHR 0x00 \<notin> set l"
    by (rule wf_line_split)
  from n have "length body < n - 1" by simp
  with b have "take_line (n - 1) (body @ CHR 0x0A # post) = l"
    unfolding l by (rule take_line_body)
  then have "take_line (n - 1) (drop (length pre) (pre @ l @ post)) = l"
    by (simp add: l)
  moreover have "\<not> length (pre @ l @ post) \<le> length pre"
    by (simp add: l)
  ultimately show ?thesis
    unfolding fgets_def Let_def using c_str_no_NUL [OF z] by simp
qed

lemma read_lines_wf:
  assumes "\<forall>l \<in> set ls. wf_line n l"
  shows "read_lines (length ls) n (pre @ concat ls @ post) (length pre)
           = Some (ls, length pre + length (concat ls))"
  using assms
proof (induction ls arbitrary: pre)
  case Nil
  show ?case by simp
next
  case (Cons l ls)
  from Cons.prems have l: "wf_line n l" and ls: "\<forall>l \<in> set ls. wf_line n l" by simp_all
  have f: "fgets n (pre @ concat (l # ls) @ post) (length pre) = Some (l, length pre + length l)"
    using fgets_wf_line [OF l, of pre "concat ls @ post"] by simp
  have "read_lines (length ls) n ((pre @ l) @ concat ls @ post) (length (pre @ l))
          = Some (ls, length (pre @ l) + length (concat ls))"
    by (rule Cons.IH [OF ls])
  then have r: "read_lines (length ls) n (pre @ concat (l # ls) @ post) (length pre + length l)
          = Some (ls, length pre + length (concat (l # ls)))"
    by (simp add: add.assoc)
  show ?case
    by (simp add: f r del: concat.simps)
qed

lemma readFromFile_eof: "length content \<le> p \<Longrightarrow> readFromFile n content (p, ln) = (False, p, ln)"
  by (simp add: readFromFile_def fgets_def)

lemma skip_lines_eof: "length content \<le> p \<Longrightarrow> skip_lines k n content (p, ln) = (p, ln)"
  by (induction k) (simp_all add: readFromFile_eof)

lemma right_lines_eof:
  "length content \<le> p \<Longrightarrow>
   right_lines k n content ((p, ln), out) = ((p, ln), out @ replicate k ln)"
proof (induction k arbitrary: out)
  case 0
  show ?case by simp
next
  case (Suc k)
  from Suc.IH [OF Suc.prems, of "out @ [ln]"] Suc.prems
  show ?case
    by (simp add: readFromFile_eof writeToFile_def replicate_app_Cons_same)
qed

lemma left_lines_eof:
  "length content \<le> p \<Longrightarrow>
   left_lines k i n content fmt ident ((p, ln), out) =
     ((p, ln), out @ (if i = 0 \<and> fmt \<and> 0 < k then catstr ident ''1\<newline>'' # replicate (k - 1) ln
                      else replicate k ln))"
proof (induction k arbitrary: out i)
  case 0
  show ?case by simp
next
  case (Suc k)
  from Suc.IH [OF Suc.prems, of "Suc i"] Suc.prems
  show ?case
    by (simp add: readFromFile_eof writeToFile_def replicate_app_Cons_same)
qed

lemma skip_lines_read:
  "read_lines k n content p = Some (ls, q) \<Longrightarrow>
   skip_lines k n content (p, ln) = (q, last (ln # ls))"
proof (induction k arbitrary: p ln ls)
  case 0
  then show ?case by simp
next
  case (Suc k)
  from Suc.prems obtain l p' ls' where f: "fgets n content p = Some (l, p')"
    and r: "read_lines k n content p' = Some (ls', q)" and ls: "ls = l # ls'"
    by (auto split: option.splits)
  from Suc.IH [OF r, of l] show ?case
    by (simp add: readFromFile_def f ls)
qed

lemma right_lines_read:
  "read_lines k n content p = Some (ls, q) \<Longrightarrow>
   right_lines k n content ((p, ln), out) = ((q, last (ln # ls)), out @ ls)"
proof (induction k arbitrary: p ln ls out)
  case 0
  then show ?case by simp
next
  case (Suc k)
  from Suc.prems obtain l p' ls' where f: "fgets n content p = Some (l, p')"
    and r: "read_lines k n content p' = Some (ls', q)" and ls: "ls = l # ls'"
    by (auto split: option.splits)
  from Suc.IH [OF r, of l "out @ [l]"] show ?case
    by (simp add: readFromFile_def f ls writeToFile_def)
qed

lemma left_lines_read:
  "read_lines k n content p = Some (ls, q) \<Longrightarrow>
   left_lines k i n content fmt ident ((p, ln), out) =
     ((q, last (ln # ls)),
      out @ (if i = 0 \<and> fmt \<and> ls \<noteq> [] then catstr ident ''1\<newline>'' # tl ls else ls))"
proof (induction k arbitrary: p ln ls out i)
  case 0
  then show ?case by simp
next
  case (Suc k)
  from Suc.prems obtain l p' ls' where f: "fgets n content p = Some (l, p')"
    and r: "read_lines k n content p' = Some (ls', q)" and ls: "ls = l # ls'"
    by (auto split: option.splits)
  from Suc.IH [OF r, of "Suc i" l] show ?case
    by (simp add: readFromFile_def f ls writeToFile_def)
qed

lemma read_lines_length: "read_lines k n content p = Some (ls, q) \<Longrightarrow> length ls = k"
  by (induction k arbitrary: p ls) (auto split: option.splits)

lemma emit_chain_count:
  "left_single_counter (emit_chain pf opt L chain s)
     = left_single_counter s + int (length (unprinted chain))
   \<and> length (left_single (emit_chain pf opt L chain s))
     = length (left_single s) + 4 * length (unprinted chain)"
  by (induction chain arbitrary: s)
     (simp_all add: Let_def unprinted_def left_lines_length del: left_lines.simps)


lemma emit_table_count:
  "left_single_counter (emit_table pf opt L tbl s)
     = left_single_counter s + int (length (unprinted (concat tbl)))
   \<and> length (left_single (emit_table pf opt L tbl s))
     = length (left_single s) + 4 * length (unprinted (concat tbl))"
  by (induction tbl arbitrary: s) (simp_all add: emit_chain_count unprinted_def)


subsection \<open>The final sweep\<close>



subsection \<open>The hash, and the dependence of a run on the fresh memory\<close>

lemma hash_loop_foldl: "hash_loop sg h s = foldl (\<lambda>h c. char_val sg c + 31 * h) h s"
  by (induction s arbitrary: h) simp_all

lemma bucket_bound:
  assumes "0 < tablesize opt"
  shows "\<exists>b. bucket pf opt s = Inr b \<and> b < nat (tablesize opt)"
proof -
  from assms have "uint (hash (char_signed pf) s) mod tablesize opt < tablesize opt"
    by (rule pos_mod_bound)
  moreover from assms have "0 \<le> uint (hash (char_signed pf) s) mod tablesize opt"
    by simp
  ultimately show ?thesis
    using assms by (simp add: bucket_def)
qed

text \<open>
  C8: a run is not a function of the two input files and the configuration alone. The two
  bucket arrays are allocated with \<^verbatim>\<open>malloc\<close> and no bucket is ever set to the null
  pointer before it is read, so the chains end in whatever the fresh memory holds, and the
  lookup, the duplicate scan and the final sweep follow every chain to that end. On the same
  two files with the same configuration (table size 3, no duplicate tracking), a run whose
  fresh arrays hold null pointers writes its four outputs and returns the counters, and a
  run whose fresh first array holds a pointer that is not null in bucket 2 follows that
  pointer: its behaviour is undefined.
\<close>

theorem run_depends_on_fresh_memory:
  "pair_files \<lparr>MAXLINELEN = 100, char_signed = True\<rparr>
      \<lparr>tablesize = 3, deduplicate = False, splitspace = False, formatid = False\<rparr>
      all_null all_null []
      ''@A/1\<newline>AC\<newline>+\<newline>II\<newline>@B/1\<newline>GG\<newline>+\<newline>JJ\<newline>''
      ''@A/2\<newline>TT\<newline>+\<newline>KK\<newline>@C/2\<newline>CC\<newline>+\<newline>LL\<newline>''
    = Inr \<lparr>out_left_paired = [''@A/1\<newline>'', ''AC\<newline>'', ''+\<newline>'', ''II\<newline>''],
          out_left_single = [''@B/1\<newline>'', ''GG\<newline>'', ''+\<newline>'', ''JJ\<newline>''],
          out_right_paired = [''@A/2\<newline>'', ''TT\<newline>'', ''+\<newline>'', ''KK\<newline>''],
          out_right_single = [''@C/2\<newline>'', ''CC\<newline>'', ''+\<newline>'', ''LL\<newline>''],
          n_left_paired = 1, n_right_paired = 1, n_left_single = 1, n_right_single = 1,
          n_left_duplicates = 0, n_right_duplicates = 0\<rparr>
   \<and> pair_files \<lparr>MAXLINELEN = 100, char_signed = True\<rparr>
      \<lparr>tablesize = 3, deduplicate = False, splitspace = False, formatid = False\<rparr>
      (wild_at 2) all_null []
      ''@A/1\<newline>AC\<newline>+\<newline>II\<newline>@B/1\<newline>GG\<newline>+\<newline>JJ\<newline>''
      ''@A/2\<newline>TT\<newline>+\<newline>KK\<newline>@C/2\<newline>CC\<newline>+\<newline>LL\<newline>''
    = Inl IndeterminatePointer"
  by (intro conjI; code_simp)

subsection \<open>Runs over well-formed files\<close>

lemma normalize_id_ok:
  "2 \<le> length l \<Longrightarrow> length l + 1 < cap \<Longrightarrow> \<exists>key. normalize_id cap l = Inr key"
  by (auto simp: normalize_id_eq)

lemma wf_record_key:
  assumes "wf_record pf opt r"
  shows "normalize_id (MAXLINELEN pf + 1) (strip_line (splitspace opt) (hd r)) = Inr (record_key pf opt r)"
proof -
  let ?l = "strip_line (splitspace opt) (hd r)"
  from assms have "r \<noteq> []" by (auto simp: wf_record_def)
  with assms have "wf_line (MAXLINELEN pf) (hd r)" by (simp add: wf_record_def)
  then have "length (hd r) < MAXLINELEN pf" by (simp add: wf_line_def)
  with strip_line_length [of "splitspace opt" "hd r"] have c: "length ?l + 1 < MAXLINELEN pf + 1"
    by simp
  from assms have "2 \<le> length ?l" by (simp add: wf_record_def)
  with c obtain key where "normalize_id (MAXLINELEN pf + 1) ?l = Inr key"
    using normalize_id_ok [of ?l "MAXLINELEN pf + 1"] by blast
  then show ?thesis by (simp add: record_key_def)
qed

lemma null_buckets_nth:
  assumes "null_buckets opt wl wr" and "b < nat (tablesize opt)"
  shows "\<not> wl b" and "deduplicate opt \<Longrightarrow> \<not> wr b"
  using assms by (simp_all add: null_buckets_def list_all_iff)

lemma null_buckets_sweep:
  "null_buckets opt wl wr \<Longrightarrow> \<not> list_ex wl [0..<nat (tablesize opt)]"
  by (auto simp: null_buckets_def list_all_iff list_ex_iff)

lemma bucket_wf: "0 < tablesize opt \<Longrightarrow> bucket pf opt key = Inr (bucket_of pf opt key)"
  by (simp add: bucket_def bucket_of_def)

lemma bucket_of_bound: "0 < tablesize opt \<Longrightarrow> bucket_of pf opt key < nat (tablesize opt)"
  using bucket_bound [of opt pf key] by (simp add: bucket_wf)

lemma wf_record_lines:
  assumes "wf_record pf opt r"
  obtains h a b c where "r = [h, a, b, c]"
    and "wf_line (MAXLINELEN pf) h" and "wf_line (MAXLINELEN pf) a"
    and "wf_line (MAXLINELEN pf) b" and "wf_line (MAXLINELEN pf) c"
proof -
  from assms have "length r = 4" by (simp add: wf_record_def)
  then obtain h a b c where r: "r = [h, a, b, c]"
    by (auto simp: length_Suc_conv eval_nat_numeral)
  with assms that [of h a b c] show thesis by (simp add: wf_record_def)
qed

lemma left_loop_record:
  assumes wf: "wf_record pf opt r" and t: "0 < tablesize opt"
    and L: "L = pre @ concat r @ post" and p: "lfp s = length pre"
    and nb: "null_buckets opt (wild_left s) (wild_right s)"
  shows "left_loop pf opt L s = left_loop pf opt L (index_record pf opt r s)"
proof -
  let ?n = "MAXLINELEN pf"
  from wf obtain h a b c where r: "r = [h, a, b, c]"
    and h: "wf_line ?n h" and abc: "\<forall>l \<in> set [a, b, c]. wf_line ?n l"
    by (rule wf_record_lines) simp
  have f: "fgets ?n L (lfp s) = Some (h, length pre + length h)"
    using fgets_wf_line [OF h, of pre "a @ b @ c @ post"] by (simp add: L r p)
  have "read_lines (length [a, b, c]) ?n ((pre @ h) @ concat [a, b, c] @ post) (length (pre @ h))
      = Some ([a, b, c], length (pre @ h) + length (concat [a, b, c]))"
    by (rule read_lines_wf [OF abc])
  then have rd: "read_lines 3 ?n L (length pre + length h)
      = Some ([a, b, c], length pre + length (concat r))"
    by (simp add: L r add.assoc numeral_3_eq_3 del: read_lines.simps)
  note sk = skip_lines_read [OF rd, of "record_key pf opt r", unfolded r]
  note k = wf_record_key [OF wf, unfolded r, simplified]
  note w = null_buckets_nth(1) [OF nb bucket_of_bound [OF t], of pf]
  have "left_record pf opt L (s\<lparr>line := h, lfp := length pre + length h\<rparr>)
      = Inr (index_record pf opt r s)"
    unfolding left_record_def index_record_def
    by (simp add: k bucket_wf [OF t] find_existing_iff sk Let_def p r w
        del: skip_lines.simps)
  then show ?thesis
    by (subst left_loop.simps) (simp add: f)
qed

lemma matching_last:
  assumes "matching key chain \<noteq> []"
  shows "last (matching key chain) \<in> set chain" and "id_str (last (matching key chain)) = key"
proof -
  from assms have "last (matching key chain) \<in> set (matching key chain)"
    by (rule last_in_set)
  then show "last (matching key chain) \<in> set chain" and "id_str (last (matching key chain)) = key"
    by (simp_all add: matching_def)
qed

lemma right_loop_record:
  assumes wf: "wf_record pf opt r" and t: "0 < tablesize opt"
    and R: "R = pre @ concat r @ post" and p: "rfp s = length pre"
    and ok: "\<forall>e \<in> set (ids_left s ! bucket_of pf opt (record_key pf opt r)).
               0 \<le> pos e \<and> read_lines 4 (MAXLINELEN pf) L (nat (pos e)) \<noteq> None"
    and nb: "null_buckets opt (wild_left s) (wild_right s)"
  shows "right_loop pf opt L R s = right_loop pf opt L R (match_record pf opt L r s)"
proof -
  let ?n = "MAXLINELEN pf"
  let ?key = "record_key pf opt r"
  let ?b = "bucket_of pf opt ?key"
  let ?ms = "matching ?key (ids_left s ! ?b)"
  from wf obtain h a b c where r: "r = [h, a, b, c]"
    and h: "wf_line ?n h" and abc: "\<forall>l \<in> set [a, b, c]. wf_line ?n l"
    by (rule wf_record_lines) simp
  have f: "fgets ?n R (rfp s) = Some (h, length pre + length h)"
    using fgets_wf_line [OF h, of pre "a @ b @ c @ post"] by (simp add: R r p)
  have "read_lines (length [a, b, c]) ?n ((pre @ h) @ concat [a, b, c] @ post) (length (pre @ h))
      = Some ([a, b, c], length (pre @ h) + length (concat [a, b, c]))"
    by (rule read_lines_wf [OF abc])
  then have rd: "read_lines 3 ?n R (length pre + length h)
      = Some ([a, b, c], length pre + length (concat r))"
    by (simp add: R r add.assoc numeral_3_eq_3 del: read_lines.simps)
  note k = wf_record_key [OF wf, unfolded r, simplified]
  note w = null_buckets_nth [OF nb bucket_of_bound [OF t], of pf]
  let ?s = "s\<lparr>line := h, rfp := length pre + length h\<rparr>"
  have "right_record pf opt L R ?s = Inr (match_record pf opt L r s)"
  proof (cases "deduplicate opt \<and> ?key \<in> id_str ` set (ids_right s ! ?b)")
    case True
    note sk = skip_lines_read [OF rd, of ?key]
    from True show ?thesis
      unfolding right_record_def match_record_def emit_left_mate_def emit_right_mate_def
      by (simp add: w k [folded r] dupstr_def bucket_wf [OF t] find_existing_iff sk Let_def p
          del: skip_lines.simps)
        (simp add: r)
  next
    case nodup: False
    have lk: "lookup_chain ?key (ids_left s ! ?b) (- 1)
        = (if ?ms = [] then - 1 else pos (last ?ms), map (mark_printed ?key) (ids_left s ! ?b))"
      by (rule lookup_chain_eq)
    show ?thesis
    proof (cases "?ms = []")
      case True
      note rl = right_lines_read [OF rd, of ?key]
      from nodup True show ?thesis
        unfolding right_record_def match_record_def emit_left_mate_def emit_right_mate_def
        by (simp add: w k [folded r] dupstr_def bucket_wf [OF t] find_existing_iff lk rl Let_def p
            writeToFile_def del: right_lines.simps left_lines.simps)
          (simp add: r)
    next
      case False
      from matching_last [OF False] ok have e: "0 \<le> pos (last ?ms)"
        and "read_lines 4 ?n L (nat (pos (last ?ms))) \<noteq> None"
        and i: "id_str (last ?ms) = ?key"
        by simp_all
      then obtain ls q where rl4: "read_lines 4 ?n L (nat (pos (last ?ms))) = Some (ls, q)"
        by auto
      from read_lines_length [OF rl4] have ne: "ls \<noteq> []" by auto
      note ll = left_lines_read [OF rl4, of 0 "formatid opt" ?key ?key "left_paired s"]
      note rl = right_lines_read [OF rd, of "last ls"]
      have em: "emitted_record pf opt L (last ?ms)
          = (if formatid opt then catstr ?key ''1\<newline>'' # tl ls else ls)"
        by (simp add: emitted_record_def rl4 i)
      have en: "record_end pf L (last ?ms) = q"
        by (simp add: record_end_def rl4)
      from e have pn: "pos (last ?ms) \<noteq> - 1" by simp
      from nodup False show ?thesis
        unfolding right_record_def match_record_def emit_left_mate_def emit_right_mate_def
        by (simp add: w k [folded r] dupstr_def bucket_wf [OF t] find_existing_iff lk ll rl Let_def p
            writeToFile_def em en pn ne del: right_lines.simps left_lines.simps)
          (simp add: r)
    qed
  qed
  then show ?thesis
    by (subst right_loop.simps) (simp add: f)
qed

lemma index_records_simps [simp]:
  "index_records pf opt [] s = s"
  "index_records pf opt (r # recs) s = index_records pf opt recs (index_record pf opt r s)"
  by (simp_all add: index_records_def)

lemma match_records_simps [simp]:
  "match_records pf opt L [] s = s"
  "match_records pf opt L (r # recs) s = match_records pf opt L recs (match_record pf opt L r s)"
  by (simp_all add: match_records_def)

lemma index_record_lfp [simp]:
  "lfp (index_record pf opt r s) = lfp s + length (concat r)"
  "nextposition (index_record pf opt r s) = int (lfp s + length (concat r))"
  by (simp_all add: index_record_def Let_def)

lemma index_record_wild [simp]:
  "wild_left (index_record pf opt r s) = wild_left s"
  "wild_right (index_record pf opt r s) = wild_right s"
  by (simp_all add: index_record_def Let_def)

lemma match_record_wild [simp]:
  "wild_left (match_record pf opt L r s) = wild_left s"
  "wild_right (match_record pf opt L r s) = wild_right s"
  by (simp_all add: match_record_def Let_def)

lemma index_records_wild [simp]:
  "wild_left (index_records pf opt recs s) = wild_left s"
  "wild_right (index_records pf opt recs s) = wild_right s"
  by (induction recs arbitrary: s) simp_all

lemma match_records_wild [simp]:
  "wild_left (match_records pf opt L recs s) = wild_left s"
  "wild_right (match_records pf opt L recs s) = wild_right s"
  by (induction recs arbitrary: s) simp_all

lemma left_loop_eof: "length L \<le> lfp s \<Longrightarrow> left_loop pf opt L s = Inr s"
  by (subst left_loop.simps) (simp add: fgets_def)

lemma right_loop_eof: "length R \<le> rfp s \<Longrightarrow> right_loop pf opt L R s = Inr s"
  by (subst right_loop.simps) (simp add: fgets_def)

lemma left_loop_records:
  assumes "\<forall>r \<in> set recs. wf_record pf opt r" and "0 < tablesize opt"
    and "L = pre @ file_of recs" and "lfp s = length pre"
    and "null_buckets opt (wild_left s) (wild_right s)"
  shows "left_loop pf opt L s = Inr (index_records pf opt recs s)"
  using assms
proof (induction recs arbitrary: pre s)
  case Nil
  then show ?case by (simp add: file_of_def left_loop_eof)
next
  case (Cons r recs)
  from Cons.prems have wf: "wf_record pf opt r" and wfs: "\<forall>r \<in> set recs. wf_record pf opt r"
    by simp_all
  from Cons.prems have L: "L = pre @ concat r @ file_of recs"
    by (simp add: file_of_def)
  then have L': "L = (pre @ concat r) @ file_of recs" by simp
  have "left_loop pf opt L s = left_loop pf opt L (index_record pf opt r s)"
    using wf Cons.prems(2) L Cons.prems(4) Cons.prems(5) by (rule left_loop_record)
  also have "\<dots> = Inr (index_records pf opt recs (index_record pf opt r s))"
    using wfs Cons.prems(2) L' by (rule Cons.IH) (simp_all add: Cons.prems(4,5))
  finally show ?case by simp
qed

lemma mark_printed_sel [simp]:
  "id_str (mark_printed key e) = id_str e" "pos (mark_printed key e) = pos e"
  by (simp_all add: mark_printed_def)

lemma entry_ok_mark [simp]: "entry_ok pf opt L recs (mark_printed key e) = entry_ok pf opt L recs e"
  by (simp add: entry_ok_def)

lemma table_ok_update:
  assumes "table_ok pf opt L recs tbl" and "\<forall>e \<in> set chain. entry_ok pf opt L recs e"
  shows "table_ok pf opt L recs (tbl[b := chain])"
  using assms unfolding table_ok_def
  by (auto dest!: subsetD [OF set_update_subset_insert])

lemma table_ok_nth:
  "table_ok pf opt L recs tbl \<Longrightarrow> b < nat (tablesize opt) \<Longrightarrow> e \<in> set (tbl ! b) \<Longrightarrow>
   entry_ok pf opt L recs e"
  unfolding table_ok_def using nth_mem [of b tbl] by auto

lemma match_record_rfp [simp]: "rfp (match_record pf opt L r s) = rfp s + length (concat r)"
  by (simp add: match_record_def Let_def)

lemma match_record_ids_left:
  "ids_left (match_record pf opt L r s) =
     (let key = record_key pf opt r; b = bucket_of pf opt key
      in if deduplicate opt \<and> key \<in> id_str ` set (ids_right s ! b) then ids_left s
         else (ids_left s)[b := map (mark_printed key) (ids_left s ! b)])"
  by (simp add: match_record_def Let_def)

lemma match_record_table_ok:
  assumes "table_ok pf opt L recs (ids_left s)" and t: "0 < tablesize opt"
  shows "table_ok pf opt L recs (ids_left (match_record pf opt L r' s))"
proof -
  let ?key = "record_key pf opt r'"
  let ?b = "bucket_of pf opt ?key"
  have "\<forall>e \<in> set (map (mark_printed ?key) (ids_left s ! ?b)). entry_ok pf opt L recs e"
    using table_ok_nth [OF assms(1) bucket_of_bound [OF t]] by simp
  with assms(1) show ?thesis
    by (simp add: match_record_ids_left Let_def table_ok_update)
qed

lemma right_loop_records:
  assumes "\<forall>r \<in> set recs. wf_record pf opt r" and "0 < tablesize opt"
    and "R = pre @ file_of recs" and "rfp s = length pre"
    and "table_ok pf opt L lrecs (ids_left s)"
    and "null_buckets opt (wild_left s) (wild_right s)"
  shows "right_loop pf opt L R s = Inr (match_records pf opt L recs s)"
  using assms
proof (induction recs arbitrary: pre s)
  case Nil
  then show ?case by (simp add: file_of_def right_loop_eof)
next
  case (Cons r recs)
  from Cons.prems have wf: "wf_record pf opt r" and wfs: "\<forall>r \<in> set recs. wf_record pf opt r"
    by simp_all
  note t = Cons.prems(2)
  from Cons.prems have R: "R = pre @ concat r @ file_of recs"
    by (simp add: file_of_def)
  then have R': "R = (pre @ concat r) @ file_of recs" by simp
  have ok: "\<forall>e \<in> set (ids_left s ! bucket_of pf opt (record_key pf opt r)).
               0 \<le> pos e \<and> read_lines 4 (MAXLINELEN pf) L (nat (pos e)) \<noteq> None"
  proof
    fix e
    assume "e \<in> set (ids_left s ! bucket_of pf opt (record_key pf opt r))"
    with Cons.prems(5) bucket_of_bound [OF t] have "entry_ok pf opt L lrecs e"
      by (rule table_ok_nth)
    then show "0 \<le> pos e \<and> read_lines 4 (MAXLINELEN pf) L (nat (pos e)) \<noteq> None"
      by (auto simp: entry_ok_def)
  qed
  have "right_loop pf opt L R s = right_loop pf opt L R (match_record pf opt L r s)"
    using wf t R Cons.prems(4) ok Cons.prems(6) by (rule right_loop_record)
  also have "\<dots> = Inr (match_records pf opt L recs (match_record pf opt L r s))"
    using wfs t R'
    by (rule Cons.IH)
      (simp_all add: Cons.prems(4,6) match_record_table_ok [OF Cons.prems(5) t])
  finally show ?case by simp
qed

lemma index_record_ids_left:
  "ids_left (index_record pf opt r s) =
     (let key = record_key pf opt r; b = bucket_of pf opt key
      in if deduplicate opt \<and> key \<in> id_str ` set (ids_left s ! b) then ids_left s
         else insert_head (ids_left s) b key (nextposition s))"
  by (simp add: index_record_def Let_def)

lemma index_record_length [simp]:
  "length (ids_left (index_record pf opt r s)) = length (ids_left s)"
  by (simp add: index_record_ids_left Let_def)

lemma match_record_length [simp]:
  "length (ids_left (match_record pf opt L r s)) = length (ids_left s)"
  by (simp add: match_record_ids_left Let_def)

lemma index_record_table_ok:
  assumes ok: "table_ok pf opt L recs (ids_left s)" and t: "0 < tablesize opt"
    and r: "r \<in> set recs"
    and rd: "read_lines 4 (MAXLINELEN pf) L (lfp s) = Some (r, q)"
    and np: "nextposition s = int (lfp s)"
  shows "table_ok pf opt L recs (ids_left (index_record pf opt r s))"
proof -
  let ?key = "record_key pf opt r"
  let ?b = "bucket_of pf opt ?key"
  let ?e = "\<lparr>id_str = ?key, pos = nextposition s, printed = False\<rparr>"
  from r rd np have e: "entry_ok pf opt L recs ?e"
    by (auto simp: entry_ok_def)
  from ok have len: "?b < length (ids_left s)"
    using bucket_of_bound [OF t, of pf ?key] by (simp add: table_ok_def)
  have "\<forall>e \<in> set (?e # ids_left s ! ?b). entry_ok pf opt L recs e"
    using e table_ok_nth [OF ok bucket_of_bound [OF t]] by simp
  with ok have "table_ok pf opt L recs ((ids_left s)[?b := ?e # ids_left s ! ?b])"
    by (rule table_ok_update)
  with ok show ?thesis
    by (simp add: index_record_ids_left Let_def insert_head_def dupstr_def)
qed

lemma read_record_wf:
  assumes "wf_record pf opt r"
  shows "read_lines 4 (MAXLINELEN pf) (pre @ concat r @ post) (length pre)
           = Some (r, length pre + length (concat r))"
proof -
  from assms have "\<forall>l \<in> set r. wf_line (MAXLINELEN pf) l" and "length r = 4"
    by (simp_all add: wf_record_def)
  with read_lines_wf [of r "MAXLINELEN pf" pre post] show ?thesis by simp
qed

lemma index_records_table_ok:
  assumes "\<forall>r \<in> set recs. wf_record pf opt r" and "0 < tablesize opt"
    and "L = pre @ file_of recs" and "lfp s = length pre" and "nextposition s = int (length pre)"
    and "table_ok pf opt L all (ids_left s)" and "set recs \<subseteq> set all"
  shows "table_ok pf opt L all (ids_left (index_records pf opt recs s))"
  using assms
proof (induction recs arbitrary: pre s)
  case Nil
  then show ?case by simp
next
  case (Cons r recs)
  from Cons.prems have wf: "wf_record pf opt r" and wfs: "\<forall>r \<in> set recs. wf_record pf opt r"
    and r: "r \<in> set all" and sub: "set recs \<subseteq> set all"
    by simp_all
  from Cons.prems have L: "L = pre @ concat r @ file_of recs"
    by (simp add: file_of_def)
  then have L': "L = (pre @ concat r) @ file_of recs" by simp
  have rd: "read_lines 4 (MAXLINELEN pf) L (lfp s) = Some (r, length pre + length (concat r))"
    unfolding L Cons.prems(4) using wf by (rule read_record_wf)
  have ok: "table_ok pf opt L all (ids_left (index_record pf opt r s))"
    using Cons.prems(6) Cons.prems(2) r rd
    by (rule index_record_table_ok) (simp add: Cons.prems(4,5))
  show ?case
    unfolding index_records_simps
    using wfs Cons.prems(2) L'
    by (rule Cons.IH) (simp_all add: Cons.prems(4) ok sub)
qed

lemma index_record_ids:
  assumes "bucket_of pf opt (record_key pf opt r) < length (ids_left s)"
  shows "id_str ` set (ids_left (index_record pf opt r s) ! b) =
     id_str ` set (ids_left s ! b)
       \<union> (if b = bucket_of pf opt (record_key pf opt r) then {record_key pf opt r} else {})"
  using assms
  by (auto simp: index_record_ids_left Let_def insert_head_nth)

lemma index_records_ids:
  assumes "0 < tablesize opt" and "length (ids_left s) = nat (tablesize opt)"
  shows "id_str ` set (ids_left (index_records pf opt recs s) ! b) =
     id_str ` set (ids_left s ! b)
       \<union> {record_key pf opt r | r. r \<in> set recs \<and> bucket_of pf opt (record_key pf opt r) = b}"
  using assms(2)
proof (induction recs arbitrary: s)
  case Nil
  show ?case by simp
next
  case (Cons r recs)
  have b: "bucket_of pf opt (record_key pf opt r) < length (ids_left s)"
    using bucket_of_bound [OF assms(1)] Cons.prems by simp
  have "length (ids_left (index_record pf opt r s)) = nat (tablesize opt)"
    using Cons.prems by simp
  from Cons.IH [OF this] index_record_ids [OF b, of b]
  show ?case by auto
qed

lemma matching_empty_iff: "matching key chain = [] \<longleftrightarrow> key \<notin> id_str ` set chain"
  by (auto simp: matching_def filter_empty_conv)

lemma index_of_matching:
  assumes "index_of pf opt lrecs tbl" and "0 < tablesize opt"
  shows "matching (record_key pf opt r) (tbl ! bucket_of pf opt (record_key pf opt r)) \<noteq> []
     \<longleftrightarrow> has_mate pf opt lrecs r"
proof -
  from assms have "id_str ` set (tbl ! bucket_of pf opt (record_key pf opt r)) =
     {record_key pf opt l | l. l \<in> set lrecs
        \<and> bucket_of pf opt (record_key pf opt l) = bucket_of pf opt (record_key pf opt r)}"
    using bucket_of_bound [of opt pf "record_key pf opt r"] by (simp add: index_of_def)
  then show ?thesis
    by (auto simp: matching_empty_iff has_mate_def)
qed

lemma index_of_mark:
  assumes "index_of pf opt lrecs tbl" and "length tbl = nat (tablesize opt)"
  shows "index_of pf opt lrecs (tbl[b := map (mark_printed key) (tbl ! b)])"
  unfolding index_of_def
proof (intro allI impI)
  fix b'
  assume b': "b' < nat (tablesize opt)"
  have "id_str ` set (tbl[b := map (mark_printed key) (tbl ! b)] ! b') = id_str ` set (tbl ! b')"
  proof (cases "b' = b")
    case True
    with b' assms(2) show ?thesis by (simp add: image_image)
  next
    case False
    then show ?thesis by simp
  qed
  with assms(1) b' show "id_str ` set (tbl[b := map (mark_printed key) (tbl ! b)] ! b') =
      {record_key pf opt l | l. l \<in> set lrecs \<and> bucket_of pf opt (record_key pf opt l) = b'}"
    by (simp add: index_of_def)
qed

lemma match_record_index_of:
  assumes "index_of pf opt lrecs (ids_left s)" and "length (ids_left s) = nat (tablesize opt)"
  shows "index_of pf opt lrecs (ids_left (match_record pf opt L r s))"
  using assms by (simp add: match_record_ids_left Let_def index_of_mark)

lemma distinct_map_filter_single:
  "distinct (map f xs) \<Longrightarrow> x \<in> set xs \<Longrightarrow> filter (\<lambda>y. f y = f x) xs = [x]"
proof (induction xs)
  case Nil
  then show ?case by simp
next
  case (Cons a xs)
  show ?case
  proof (cases "a = x")
    case True
    with Cons.prems have "\<forall>y \<in> set xs. f y \<noteq> f x" by (force simp: image_iff)
    then have "filter (\<lambda>y. f y = f x) xs = []" by (simp add: filter_empty_conv)
    with True show ?thesis by simp
  next
    case False
    with Cons.prems have "x \<in> set xs" and "f a \<noteq> f x" and "distinct (map f xs)" by auto
    with Cons.IH show ?thesis by simp
  qed
qed

lemma match_record_paired_out:
  assumes ok: "table_ok pf opt L lrecs (ids_left s)" and ix: "index_of pf opt lrecs (ids_left s)"
    and t: "0 < tablesize opt" and dl: "distinct (map (record_key pf opt) lrecs)"
    and nd: "\<not> (deduplicate opt \<and> record_key pf opt r
               \<in> id_str ` set (ids_right s ! bucket_of pf opt (record_key pf opt r)))"
    and wf: "wf_record pf opt r"
  shows "left_paired (match_record pf opt L r s)
           = left_paired s @ concat (map (left_out pf opt) (mates pf opt lrecs r))"
    and "right_paired (match_record pf opt L r s)
           = right_paired s @ (if has_mate pf opt lrecs r then right_out pf opt r else [])"
proof -
  let ?key = "record_key pf opt r"
  let ?b = "bucket_of pf opt ?key"
  let ?ms = "matching ?key (ids_left s ! ?b)"
  note hm = index_of_matching [OF ix t, of r]
  from wf have "r \<noteq> []" by (auto simp: wf_record_def)
  then have r: "hd r # tl r = r" by simp
  show "right_paired (match_record pf opt L r s)
           = right_paired s @ (if has_mate pf opt lrecs r then right_out pf opt r else [])"
    using nd hm by (auto simp: match_record_def Let_def right_out_def r)
  show "left_paired (match_record pf opt L r s)
           = left_paired s @ concat (map (left_out pf opt) (mates pf opt lrecs r))"
  proof (cases "has_mate pf opt lrecs r")
    case False
    then have "mates pf opt lrecs r = []"
      by (force simp: has_mate_def mates_def filter_empty_conv image_iff)
    with nd hm False show ?thesis
      by (auto simp: match_record_def Let_def)
  next
    case True
    with hm have ne: "?ms \<noteq> []" by simp
    from matching_last [OF ne] table_ok_nth [OF ok bucket_of_bound [OF t]]
    have "entry_ok pf opt L lrecs (last ?ms)" and i: "id_str (last ?ms) = ?key"
      by simp_all
    then obtain l q where l: "l \<in> set lrecs"
      and rd: "read_lines 4 (MAXLINELEN pf) L (nat (pos (last ?ms))) = Some (l, q)"
      and k: "record_key pf opt l = ?key"
      by (auto simp: entry_ok_def)
    from distinct_map_filter_single [OF dl l] have "mates pf opt lrecs r = [l]"
      by (simp add: mates_def k)
    moreover have "emitted_record pf opt L (last ?ms) = left_out pf opt l"
      by (simp add: emitted_record_def rd left_out_def i k)
    ultimately show ?thesis
      using nd ne by (auto simp: match_record_def Let_def)
  qed
qed

lemma match_record_ids_right:
  "ids_right (match_record pf opt L r s) =
     (let key = record_key pf opt r; b = bucket_of pf opt key
      in if deduplicate opt \<and> key \<notin> id_str ` set (ids_right s ! b)
         then insert_head (ids_right s) b key (nextposition s)
         else ids_right s)"
  by (simp add: match_record_def Let_def)

lemma match_record_nextposition [simp]:
  "nextposition (match_record pf opt L r s) = nextposition s"
  by (simp add: match_record_def Let_def)

lemma match_records_paired_out:
  assumes "table_ok pf opt L lrecs (ids_left s)" and "index_of pf opt lrecs (ids_left s)"
    and t: "0 < tablesize opt" and dl: "distinct (map (record_key pf opt) lrecs)"
    and "\<forall>r \<in> set rrecs. wf_record pf opt r"
    and "deduplicate opt \<longrightarrow>
           distinct (map (record_key pf opt) rrecs) \<and> length (ids_right s) = nat (tablesize opt)
           \<and> (\<forall>r \<in> set rrecs. record_key pf opt r
                \<notin> id_str ` set (ids_right s ! bucket_of pf opt (record_key pf opt r)))"
  shows "left_paired (match_records pf opt L rrecs s)
           = left_paired s @ concat (map (left_out pf opt) (paired_left pf opt lrecs rrecs))
       \<and> right_paired (match_records pf opt L rrecs s)
           = right_paired s @ concat (map (right_out pf opt) (paired_right pf opt lrecs rrecs))"
  using assms(1,2,5,6)
proof (induction rrecs arbitrary: s)
  case Nil
  show ?case by (simp add: paired_left_def paired_right_def)
next
  case (Cons r rrecs)
  let ?key = "record_key pf opt r"
  let ?b = "bucket_of pf opt ?key"
  let ?s = "match_record pf opt L r s"
  from Cons.prems have ok: "table_ok pf opt L lrecs (ids_left s)"
    and ix: "index_of pf opt lrecs (ids_left s)"
    and wf: "wf_record pf opt r" and wfs: "\<forall>r \<in> set rrecs. wf_record pf opt r"
    by simp_all
  from Cons.prems(4) have nd: "\<not> (deduplicate opt \<and> ?key \<in> id_str ` set (ids_right s ! ?b))"
    by auto
  note out = match_record_paired_out [OF ok ix t dl nd wf]
  from ok have len: "length (ids_left s) = nat (tablesize opt)" by (simp add: table_ok_def)
  have ok': "table_ok pf opt L lrecs (ids_left ?s)"
    using ok t by (rule match_record_table_ok)
  have ix': "index_of pf opt lrecs (ids_left ?s)"
    using ix len by (rule match_record_index_of)
  have nd': "deduplicate opt \<longrightarrow>
           distinct (map (record_key pf opt) rrecs) \<and> length (ids_right ?s) = nat (tablesize opt)
           \<and> (\<forall>r' \<in> set rrecs. record_key pf opt r'
                \<notin> id_str ` set (ids_right ?s ! bucket_of pf opt (record_key pf opt r')))"
  proof
    assume d: "deduplicate opt"
    with Cons.prems(4) have dr: "distinct (map (record_key pf opt) (r # rrecs))"
      and lr: "length (ids_right s) = nat (tablesize opt)"
      and nr: "\<forall>r' \<in> set rrecs. record_key pf opt r'
                \<notin> id_str ` set (ids_right s ! bucket_of pf opt (record_key pf opt r'))"
      by simp_all
    from lr bucket_of_bound [OF t, of pf ?key] have b: "?b < length (ids_right s)" by simp
    have ir: "ids_right ?s = insert_head (ids_right s) ?b ?key (nextposition s)"
      using d nd by (simp add: match_record_ids_right Let_def)
    have "record_key pf opt r' \<notin> id_str ` set (ids_right ?s ! bucket_of pf opt (record_key pf opt r'))"
      if "r' \<in> set rrecs" for r'
    proof -
      from that dr have "record_key pf opt r' \<noteq> ?key" by (force simp: image_iff)
      with nr that show ?thesis
        by (auto simp: ir insert_head_nth [OF b])
    qed
    with dr lr show "distinct (map (record_key pf opt) rrecs) \<and> length (ids_right ?s) = nat (tablesize opt)
           \<and> (\<forall>r' \<in> set rrecs. record_key pf opt r'
                \<notin> id_str ` set (ids_right ?s ! bucket_of pf opt (record_key pf opt r')))"
      by (simp add: ir)
  qed
  from Cons.IH [OF ok' ix' wfs nd'] out
  show ?case
    by (simp add: paired_left_def paired_right_def)
qed

lemma index_record_frame [simp]:
  "rfp (index_record pf opt r s) = rfp s"
  "ids_right (index_record pf opt r s) = ids_right s"
  "left_paired (index_record pf opt r s) = left_paired s"
  "left_single (index_record pf opt r s) = left_single s"
  "right_paired (index_record pf opt r s) = right_paired s"
  "right_single (index_record pf opt r s) = right_single s"
  "right_duplicates_counter (index_record pf opt r s) = right_duplicates_counter s"
  "left_paired_counter (index_record pf opt r s) = left_paired_counter s"
  "right_paired_counter (index_record pf opt r s) = right_paired_counter s"
  "left_single_counter (index_record pf opt r s) = left_single_counter s"
  "right_single_counter (index_record pf opt r s) = right_single_counter s"
  by (simp_all add: index_record_def Let_def)

lemma index_records_frame [simp]:
  "rfp (index_records pf opt recs s) = rfp s"
  "ids_right (index_records pf opt recs s) = ids_right s"
  "left_paired (index_records pf opt recs s) = left_paired s"
  "left_single (index_records pf opt recs s) = left_single s"
  "right_paired (index_records pf opt recs s) = right_paired s"
  "right_single (index_records pf opt recs s) = right_single s"
  "right_duplicates_counter (index_records pf opt recs s) = right_duplicates_counter s"
  "left_paired_counter (index_records pf opt recs s) = left_paired_counter s"
  "right_paired_counter (index_records pf opt recs s) = right_paired_counter s"
  "left_single_counter (index_records pf opt recs s) = left_single_counter s"
  "right_single_counter (index_records pf opt recs s) = right_single_counter s"
  "length (ids_left (index_records pf opt recs s)) = length (ids_left s)"
  by (induction recs arbitrary: s) simp_all

lemma match_record_frame [simp]:
  "left_single (match_record pf opt L r s) = left_single s"
  "left_single_counter (match_record pf opt L r s) = left_single_counter s"
  "left_duplicates_counter (match_record pf opt L r s) = left_duplicates_counter s"
  by (simp_all add: match_record_def Let_def)

lemma match_records_frame [simp]:
  "left_single (match_records pf opt L recs s) = left_single s"
  "left_single_counter (match_records pf opt L recs s) = left_single_counter s"
  "left_duplicates_counter (match_records pf opt L recs s) = left_duplicates_counter s"
  "length (ids_left (match_records pf opt L recs s)) = length (ids_left s)"
  by (induction recs arbitrary: s) simp_all

lemma emit_chain_frame [simp]:
  "left_paired (emit_chain pf opt L chain s) = left_paired s"
  "right_paired (emit_chain pf opt L chain s) = right_paired s"
  "right_single (emit_chain pf opt L chain s) = right_single s"
  "left_paired_counter (emit_chain pf opt L chain s) = left_paired_counter s"
  "right_paired_counter (emit_chain pf opt L chain s) = right_paired_counter s"
  "right_single_counter (emit_chain pf opt L chain s) = right_single_counter s"
  "left_duplicates_counter (emit_chain pf opt L chain s) = left_duplicates_counter s"
  "right_duplicates_counter (emit_chain pf opt L chain s) = right_duplicates_counter s"
  by (induction chain arbitrary: s) (simp_all add: Let_def del: left_lines.simps)

lemma emit_table_frame [simp]:
  "left_paired (emit_table pf opt L tbl s) = left_paired s"
  "right_paired (emit_table pf opt L tbl s) = right_paired s"
  "right_single (emit_table pf opt L tbl s) = right_single s"
  "left_paired_counter (emit_table pf opt L tbl s) = left_paired_counter s"
  "right_paired_counter (emit_table pf opt L tbl s) = right_paired_counter s"
  "right_single_counter (emit_table pf opt L tbl s) = right_single_counter s"
  "left_duplicates_counter (emit_table pf opt L tbl s) = left_duplicates_counter s"
  "right_duplicates_counter (emit_table pf opt L tbl s) = right_duplicates_counter s"
  by (induction tbl arbitrary: s) simp_all

lemma init_table_ok: "0 \<le> tablesize opt \<Longrightarrow> table_ok pf opt L recs (ids_left (init_locals opt wl wr buf))"
  by (simp add: table_ok_def init_locals_def)

lemma indexed_table_ok:
  assumes "\<forall>l \<in> set lrecs. wf_record pf opt l" and t: "0 < tablesize opt"
  shows "table_ok pf opt (file_of lrecs) lrecs (ids_left (indexed pf opt wl wr buf lrecs))"
proof -
  have "table_ok pf opt (file_of lrecs) lrecs (ids_left (index_records pf opt lrecs (init_locals opt wl wr buf)))"
    using assms
  proof (rule index_records_table_ok [where pre = "[]"])
    from t show "table_ok pf opt (file_of lrecs) lrecs (ids_left (init_locals opt wl wr buf))"
      by (simp add: init_table_ok)
  qed (simp_all add: init_locals_def)
  then show ?thesis by (simp add: indexed_def)
qed

lemma indexed_index_of:
  assumes t: "0 < tablesize opt"
  shows "index_of pf opt lrecs (ids_left (indexed pf opt wl wr buf lrecs))"
proof -
  have len: "length (ids_left (init_locals opt wl wr buf)) = nat (tablesize opt)"
    by (simp add: init_locals_def)
  have e: "id_str ` set (ids_left (init_locals opt wl wr buf) ! b) = {}" if "b < nat (tablesize opt)" for b
    using that by (simp add: init_locals_def)
  show ?thesis
    unfolding index_of_def indexed_def
    by (simp add: index_records_ids [OF t len] e)
qed

lemma pair_files_records:
  assumes wl: "\<forall>l \<in> set lrecs. wf_record pf opt l" and wr: "\<forall>r \<in> set rrecs. wf_record pf opt r"
    and t: "0 < tablesize opt" and nb: "null_buckets opt wl wr"
  shows "pair_files pf opt wl wr buf (file_of lrecs) (file_of rrecs) =
     Inr (report (emit_table pf opt (file_of lrecs) (ids_left (matched pf opt wl wr buf lrecs rrecs))
                    (matched pf opt wl wr buf lrecs rrecs)))"
proof -
  let ?L = "file_of lrecs" and ?R = "file_of rrecs"
  have l: "left_loop pf opt ?L (init_locals opt wl wr buf)
      = Inr (index_records pf opt lrecs (init_locals opt wl wr buf))"
    using wl t by (rule left_loop_records [where pre = "[]"]) (simp_all add: init_locals_def nb)
  have r: "right_loop pf opt ?L ?R (indexed pf opt wl wr buf lrecs)
      = Inr (match_records pf opt ?L rrecs (indexed pf opt wl wr buf lrecs))"
    using wr t
  proof (rule right_loop_records [where pre = "[]"])
    show "table_ok pf opt ?L lrecs (ids_left (indexed pf opt wl wr buf lrecs))"
      using wl t by (rule indexed_table_ok)
  qed (simp_all add: indexed_def, simp_all add: init_locals_def nb)
  have w: "wild_left (init_locals opt wl wr buf) = wl"
    by (simp add: init_locals_def)
  from t show ?thesis
    by (simp add: pair_files_def l r [unfolded indexed_def] matched_def indexed_def sweep_def
        w null_buckets_sweep [OF nb] del: emit_table.simps)
qed

lemma count_list_map_once:
  assumes "distinct (map f xs)" and "x \<in> set xs"
    and "\<forall>y \<in> set xs. g y = g x \<longrightarrow> f y = f x"
  shows "count_list (map g xs) (g x) = 1"
  using assms
proof (induction xs)
  case Nil
  then show ?case by simp
next
  case (Cons a xs)
  show ?case
  proof (cases "a = x")
    case True
    have "g x \<notin> set (map g xs)"
    proof
      assume "g x \<in> set (map g xs)"
      then obtain y where y: "y \<in> set xs" and "g y = g x" by auto
      with Cons.prems(3) have "f y = f x" by simp
      with y Cons.prems(1) True show False by (force simp: image_iff)
    qed
    then have "count_list (map g xs) (g x) = 0" by (rule count_list_0_iff [THEN iffD2])
    with True show ?thesis by simp
  next
    case False
    with Cons.prems have x: "x \<in> set xs" and d: "distinct (map f xs)" by simp_all
    from x Cons.prems(1) have "f a \<noteq> f x" by (force simp: image_iff)
    with Cons.prems(3) have "g a \<noteq> g x" by auto
    with Cons.IH [OF d x] Cons.prems(3) show ?thesis by simp
  qed
qed

lemma left_out_key:
  "left_out pf opt y = left_out pf opt x \<Longrightarrow> record_key pf opt y = record_key pf opt x"
  by (auto simp: left_out_def catstr_def split: if_splits)

lemma right_out_key:
  "right_out pf opt y = right_out pf opt x \<Longrightarrow> record_key pf opt y = record_key pf opt x"
  by (auto simp: right_out_def catstr_def split: if_splits)

lemma paired_left_keys:
  assumes "distinct (map (record_key pf opt) lrecs)"
  shows "map (record_key pf opt) (paired_left pf opt lrecs rrecs)
       = map (record_key pf opt) (paired_right pf opt lrecs rrecs)"
proof (induction rrecs)
  case Nil
  show ?case by (simp add: paired_left_def paired_right_def)
next
  case (Cons r rrecs)
  have "map (record_key pf opt) (mates pf opt lrecs r)
      = (if has_mate pf opt lrecs r then [record_key pf opt r] else [])"
  proof (cases "has_mate pf opt lrecs r")
    case True
    then obtain l where l: "l \<in> set lrecs" and k: "record_key pf opt l = record_key pf opt r"
      by (auto simp: has_mate_def)
    from distinct_map_filter_single [OF assms l] have "mates pf opt lrecs r = [l]"
      by (simp add: mates_def k)
    with True k show ?thesis by simp
  next
    case False
    then have "mates pf opt lrecs r = []"
      by (force simp: has_mate_def mates_def filter_empty_conv image_iff)
    with False show ?thesis by simp
  qed
  with Cons.IH show ?case
    by (simp add: paired_left_def paired_right_def)
qed

lemma paired_right_distinct:
  "distinct (map (record_key pf opt) rrecs) \<Longrightarrow>
   distinct (map (record_key pf opt) (paired_right pf opt lrecs rrecs))"
  by (simp add: paired_right_def distinct_map_filter)

lemma paired_left_mem:
  assumes "l \<in> set lrecs" and "has_mate pf opt rrecs l"
  shows "l \<in> set (paired_left pf opt lrecs rrecs)"
proof -
  from assms(2) obtain r where "r \<in> set rrecs" and "record_key pf opt r = record_key pf opt l"
    by (auto simp: has_mate_def)
  with assms(1) have "l \<in> set (mates pf opt lrecs r)" and "r \<in> set rrecs"
    by (simp_all add: mates_def)
  then show ?thesis
    unfolding paired_left_def by (simp only: set_concat set_map) blast
qed

lemma paired_right_mem:
  assumes "l \<in> set lrecs" and "r \<in> set rrecs" and "record_key pf opt r = record_key pf opt l"
  shows "r \<in> set (paired_right pf opt lrecs rrecs)"
proof -
  from assms(1,3) have "has_mate pf opt lrecs r"
    unfolding has_mate_def by (simp add: image_iff) (rule bexI [of _ l], simp_all)
  with assms(2) show ?thesis by (simp add: paired_right_def)
qed

lemma indexed_sel [simp]:
  "ids_right (indexed pf opt wl wr buf lrecs) = (if deduplicate opt then replicate (nat (tablesize opt)) [] else [])"
  "left_paired (indexed pf opt wl wr buf lrecs) = []"
  "right_paired (indexed pf opt wl wr buf lrecs) = []"
  "right_single (indexed pf opt wl wr buf lrecs) = []"
  "left_single (indexed pf opt wl wr buf lrecs) = []"
  "left_paired_counter (indexed pf opt wl wr buf lrecs) = 0"
  "right_paired_counter (indexed pf opt wl wr buf lrecs) = 0"
  "left_single_counter (indexed pf opt wl wr buf lrecs) = 0"
  "right_single_counter (indexed pf opt wl wr buf lrecs) = 0"
  "right_duplicates_counter (indexed pf opt wl wr buf lrecs) = 0"
  "length (ids_left (indexed pf opt wl wr buf lrecs)) = nat (tablesize opt)"
  by (simp_all add: indexed_def) (simp_all add: init_locals_def)

lemma indexed_no_right_ids:
  assumes "0 < tablesize opt" and "deduplicate opt"
  shows "key \<notin> id_str ` set (ids_right (indexed pf opt wl wr buf lrecs) ! bucket_of pf opt key)"
  using bucket_of_bound [OF assms(1), of pf key] assms(2) by simp

lemma matched_paired_out:
  assumes wl: "\<forall>l \<in> set lrecs. wf_record pf opt l" and wr: "\<forall>r \<in> set rrecs. wf_record pf opt r"
    and dl: "distinct (map (record_key pf opt) lrecs)"
    and dr: "distinct (map (record_key pf opt) rrecs)"
    and t: "0 < tablesize opt"
  shows "left_paired (matched pf opt wl wr buf lrecs rrecs)
           = concat (map (left_out pf opt) (paired_left pf opt lrecs rrecs))"
    and "right_paired (matched pf opt wl wr buf lrecs rrecs)
           = concat (map (right_out pf opt) (paired_right pf opt lrecs rrecs))"
proof -
  let ?L = "file_of lrecs"
  let ?s1 = "indexed pf opt wl wr buf lrecs"
  have ok: "table_ok pf opt ?L lrecs (ids_left ?s1)"
    using wl t by (rule indexed_table_ok)
  have ix: "index_of pf opt lrecs (ids_left ?s1)"
    using t by (rule indexed_index_of)
  have nd: "deduplicate opt \<longrightarrow>
           distinct (map (record_key pf opt) rrecs) \<and> length (ids_right ?s1) = nat (tablesize opt)
           \<and> (\<forall>r \<in> set rrecs. record_key pf opt r
                \<notin> id_str ` set (ids_right ?s1 ! bucket_of pf opt (record_key pf opt r)))"
  proof (intro impI conjI ballI)
    show "distinct (map (record_key pf opt) rrecs)" by (rule dr)
    show "length (ids_right ?s1) = nat (tablesize opt)" if "deduplicate opt"
      using that by simp
    show "record_key pf opt r \<notin> id_str ` set (ids_right ?s1 ! bucket_of pf opt (record_key pf opt r))"
      if "deduplicate opt" for r
      using t that by (rule indexed_no_right_ids)
  qed
  note m = match_records_paired_out [OF ok ix t dl wr nd, folded matched_def]
  from m show "left_paired (matched pf opt wl wr buf lrecs rrecs)
           = concat (map (left_out pf opt) (paired_left pf opt lrecs rrecs))"
    by simp
  from m show "right_paired (matched pf opt wl wr buf lrecs rrecs)
           = concat (map (right_out pf opt) (paired_right pf opt lrecs rrecs))"
    by simp
qed

subsection \<open>A file that ends inside a record\<close>

text \<open>
  C4, as stated, fails: a first file that stops after the second line of its record and a
  second file that stops after its header are both processed to the end without any error,
  and the missing lines are written as copies of what the line buffer holds (the last line
  read, or the normalized id).
\<close>

theorem truncated_record_counterexample:
  "pair_files \<lparr>MAXLINELEN = 100, char_signed = True\<rparr>
     \<lparr>tablesize = 3, deduplicate = False, splitspace = False, formatid = False\<rparr> all_null all_null []
     ''@A/1\<newline>AC\<newline>'' ''@C/2\<newline>''
   = Inr \<lparr>out_left_paired = [],
          out_left_single = [''@A/1\<newline>'', ''AC\<newline>'', ''AC\<newline>'', ''AC\<newline>''],
          out_right_paired = [],
          out_right_single = [''@C/2\<newline>'', ''@C/'', ''@C/'', ''@C/''],
          n_left_paired = 0, n_right_paired = 0, n_left_single = 1, n_right_single = 1,
          n_left_duplicates = 0, n_right_duplicates = 0\<rparr>"
  by code_simp

lemma skip_lines_add:
  "skip_lines (j + m) n content st = skip_lines m n content (skip_lines j n content st)"
  by (induction j arbitrary: st) simp_all

lemma right_lines_add:
  "right_lines (j + m) n content st = right_lines m n content (right_lines j n content st)"
  by (induction j n content st rule: right_lines.induct) (simp_all add: Let_def)

lemma left_lines_add:
  "left_lines (j + m) i n content fmt ident st
     = left_lines m (i + j) n content fmt ident (left_lines j i n content fmt ident st)"
  by (induction j i n content fmt ident st rule: left_lines.induct) (simp_all add: Let_def)

lemma read_lines_tail:
  assumes "\<forall>l \<in> set ls. wf_line n l"
  shows "read_lines (length ls) n (pre @ concat ls) (length pre)
           = Some (ls, length pre + length (concat ls))"
  using read_lines_wf [OF assms, of pre "[]"] by simp

lemma readFromFile_pos:
  "fst (snd (readFromFile n content (p, ln))) = fst (snd (readFromFile n content (p, ln')))"
  by (simp add: readFromFile_def split: option.splits)

lemma skip_lines_pos:
  "fst (skip_lines k n content (p, ln)) = fst (skip_lines k n content (p, ln'))"
proof (induction k arbitrary: p ln ln')
  case 0
  show ?case by simp
next
  case (Suc k)
  obtain q l where a: "snd (readFromFile n content (p, ln)) = (q, l)"
    by (cases "snd (readFromFile n content (p, ln))")
  obtain q' l' where b: "snd (readFromFile n content (p, ln')) = (q', l')"
    by (cases "snd (readFromFile n content (p, ln'))")
  from readFromFile_pos [of n content p ln ln'] a b have "q' = q" by simp
  with Suc.IH [of q l l'] show ?case by (simp add: a b)
qed

lemma right_lines_pos:
  "fst (fst (right_lines k n content ((p, ln), out))) = fst (skip_lines k n content (p, ln'))"
proof (induction k arbitrary: p ln ln' out)
  case 0
  show ?case by simp
next
  case (Suc k)
  obtain q l where a: "snd (readFromFile n content (p, ln)) = (q, l)"
    by (cases "snd (readFromFile n content (p, ln))")
  obtain q' l' where b: "snd (readFromFile n content (p, ln')) = (q', l')"
    by (cases "snd (readFromFile n content (p, ln'))")
  from readFromFile_pos [of n content p ln ln'] a b have "q' = q" by simp
  with Suc.IH [of q l "writeToFile out l" l'] show ?case by (simp add: a b Let_def)
qed

lemma skip_lines_tail:
  assumes "\<forall>l \<in> set ls. wf_line n l" and "m = 0 \<or> post = []"
  shows "skip_lines (length ls + m) n (pre @ concat ls @ post) (length pre, ln)
           = (length pre + length (concat ls), last (ln # ls))"
proof -
  note r = read_lines_wf [OF assms(1), of pre post]
  from assms(2) have "skip_lines m n (pre @ concat ls @ post)
      (length pre + length (concat ls), last (ln # ls)) = (length pre + length (concat ls), last (ln # ls))"
    by (auto simp: skip_lines_eof)
  then show ?thesis
    unfolding skip_lines_add skip_lines_read [OF r] .
qed

lemma right_lines_tail:
  assumes "\<forall>l \<in> set ls. wf_line n l" and "m = 0 \<or> post = []"
  shows "right_lines (length ls + m) n (pre @ concat ls @ post) ((length pre, ln), out)
           = ((length pre + length (concat ls), last (ln # ls)),
              out @ ls @ replicate m (last (ln # ls)))"
proof -
  note r = read_lines_wf [OF assms(1), of pre post]
  from assms(2) have "right_lines m n (pre @ concat ls @ post)
      ((length pre + length (concat ls), last (ln # ls)), out @ ls)
    = ((length pre + length (concat ls), last (ln # ls)), out @ ls @ replicate m (last (ln # ls)))"
    by (auto simp: right_lines_eof)
  then show ?thesis
    unfolding right_lines_add right_lines_read [OF r] .
qed

lemma header_key:
  assumes "wf_line (MAXLINELEN pf) h" and "2 \<le> length (strip_line (splitspace opt) h)"
  shows "normalize_id (MAXLINELEN pf + 1) (strip_line (splitspace opt) h)
           = Inr (record_key pf opt (h # ls))"
proof -
  let ?l = "strip_line (splitspace opt) h"
  from assms(1) have "length h < MAXLINELEN pf" by (simp add: wf_line_def)
  with strip_line_length [of "splitspace opt" h] have c: "length ?l + 1 < MAXLINELEN pf + 1"
    by simp
  with assms(2) obtain key where "normalize_id (MAXLINELEN pf + 1) ?l = Inr key"
    using normalize_id_ok [of ?l "MAXLINELEN pf + 1"] by blast
  then show ?thesis by (simp add: record_key_def)
qed

lemma left_loop_lines:
  assumes h: "wf_line (MAXLINELEN pf) h" and ls: "\<forall>l \<in> set ls. wf_line (MAXLINELEN pf) l"
    and k: "2 \<le> length (strip_line (splitspace opt) h)"
    and len: "length ls + m = 3" and m: "m = 0 \<or> post = []"
    and t: "0 < tablesize opt"
    and L: "L = pre @ h @ concat ls @ post" and p: "lfp s = length pre"
    and nb: "null_buckets opt (wild_left s) (wild_right s)"
  shows "left_loop pf opt L s = left_loop pf opt L (index_partial pf opt (h # ls) s)"
proof -
  let ?n = "MAXLINELEN pf"
  let ?key = "record_key pf opt (h # ls)"
  have f: "fgets ?n L (lfp s) = Some (h, length pre + length h)"
    using fgets_wf_line [OF h, of pre "concat ls @ post"] by (simp add: L p)
  have "skip_lines (length ls + m) ?n ((pre @ h) @ concat ls @ post) (length (pre @ h), ?key)
      = (length (pre @ h) + length (concat ls), last (?key # ls))"
    using ls m by (rule skip_lines_tail)
  then have sk: "skip_lines 3 ?n L (length pre + length h, ?key)
      = (length pre + length h + length (concat ls), last (?key # ls))"
    by (simp add: len L)
  note kk = header_key [OF h k, of ls, simplified]
  note w = null_buckets_nth(1) [OF nb bucket_of_bound [OF t], of pf]
  have "left_record pf opt L (s\<lparr>line := h, lfp := length pre + length h\<rparr>)
      = Inr (index_partial pf opt (h # ls) s)"
    unfolding left_record_def index_record_def index_partial_def
    by (simp add: kk bucket_wf [OF t] find_existing_iff sk Let_def p w
        del: skip_lines.simps last.simps)
  then show ?thesis
    by (subst left_loop.simps) (simp add: f)
qed

lemma index_partial_sel [simp]:
  "lfp (index_partial pf opt r s) = lfp s + length (concat r)"
  "wild_left (index_partial pf opt r s) = wild_left s"
  "wild_right (index_partial pf opt r s) = wild_right s"
  "ids_left (index_partial pf opt r s) = ids_left (index_record pf opt r s)"
  "left_duplicates_counter (index_partial pf opt r s) = left_duplicates_counter (index_record pf opt r s)"
  "nextposition (index_partial pf opt r s) = int (lfp s + length (concat r))"
  by (simp_all add: index_partial_def)

lemma left_loop_records_post:
  assumes "\<forall>r \<in> set recs. wf_record pf opt r" and "0 < tablesize opt"
    and "L = pre @ file_of recs @ post" and "lfp s = length pre"
    and "null_buckets opt (wild_left s) (wild_right s)"
  shows "left_loop pf opt L s = left_loop pf opt L (index_records pf opt recs s)"
  using assms
proof (induction recs arbitrary: pre s)
  case Nil
  then show ?case by simp
next
  case (Cons r recs)
  from Cons.prems have wf: "wf_record pf opt r" and wfs: "\<forall>r \<in> set recs. wf_record pf opt r"
    by simp_all
  from Cons.prems have L: "L = pre @ concat r @ file_of recs @ post"
    by (simp add: file_of_def)
  then have L': "L = (pre @ concat r) @ file_of recs @ post" by simp
  have "left_loop pf opt L s = left_loop pf opt L (index_record pf opt r s)"
    using wf Cons.prems(2) L Cons.prems(4) Cons.prems(5) by (rule left_loop_record)
  also have "\<dots> = left_loop pf opt L (index_records pf opt recs (index_record pf opt r s))"
    using wfs Cons.prems(2) L' by (rule Cons.IH) (simp_all add: Cons.prems(4,5))
  finally show ?case by simp
qed

lemma index_records_lfp [simp]:
  "lfp (index_records pf opt recs s) = lfp s + length (file_of recs)"
  by (induction recs arbitrary: s) (simp_all add: file_of_def)

lemma wf_partial_lines:
  assumes "wf_partial pf opt r"
  obtains h ls where "r = h # ls" and "wf_line (MAXLINELEN pf) h"
    and "\<forall>l \<in> set ls. wf_line (MAXLINELEN pf) l" and "length ls < 3"
    and "2 \<le> length (strip_line (splitspace opt) h)"
proof -
  from assms obtain h ls where r: "r = h # ls" by (cases r) (auto simp: wf_partial_def)
  with assms that [of h ls] show thesis by (simp add: wf_partial_def)
qed

lemma left_loop_partial:
  assumes wf: "\<forall>r \<in> set recs. wf_record pf opt r" and part: "wf_partial pf opt part"
    and t: "0 < tablesize opt"
    and L: "L = pre @ file_of recs @ concat part" and p: "lfp s = length pre"
    and nb: "null_buckets opt (wild_left s) (wild_right s)"
  shows "left_loop pf opt L s = Inr (index_partial pf opt part (index_records pf opt recs s))"
proof -
  let ?s = "index_records pf opt recs s"
  from part obtain h ls where r: "part = h # ls" and h: "wf_line (MAXLINELEN pf) h"
    and ls: "\<forall>l \<in> set ls. wf_line (MAXLINELEN pf) l" and len: "length ls < 3"
    and k: "2 \<le> length (strip_line (splitspace opt) h)"
    by (rule wf_partial_lines)
  from len have len': "length ls + (3 - length ls) = 3" by simp
  have m: "3 - length ls = 0 \<or> ([]::string) = []" by simp
  have L': "L = (pre @ file_of recs) @ h @ concat ls @ []" by (simp add: L r)
  have "left_loop pf opt L s = left_loop pf opt L ?s"
    using wf t L p nb by (rule left_loop_records_post)
  also have "\<dots> = left_loop pf opt L (index_partial pf opt (h # ls) ?s)"
    using h ls k len' m t L' by (rule left_loop_lines) (simp_all add: p nb)
  also have "\<dots> = Inr (index_partial pf opt (h # ls) ?s)"
    by (rule left_loop_eof) (simp add: L r p)
  finally show ?thesis by (simp add: r)
qed

lemma right_loop_lines:
  assumes h: "wf_line (MAXLINELEN pf) h" and ls: "\<forall>l \<in> set ls. wf_line (MAXLINELEN pf) l"
    and k: "2 \<le> length (strip_line (splitspace opt) h)"
    and len: "length ls + m = 3" and m: "m = 0 \<or> post = []"
    and t: "0 < tablesize opt"
    and R: "R = pre @ h @ concat ls @ post" and p: "rfp s = length pre"
    and nb: "null_buckets opt (wild_left s) (wild_right s)"
  shows "\<exists>s1. right_loop pf opt L R s = right_loop pf opt L R s1
     \<and> rfp s1 = length pre + length (concat (h # ls))
     \<and> wild_left s1 = wild_left s \<and> wild_right s1 = wild_right s
     \<and> right_count s1 = right_count s + 1
     \<and> (deduplicate opt \<and> right_duplicates_counter s1 = right_duplicates_counter s + 1
          \<and> right_paired s1 = right_paired s \<and> right_single s1 = right_single s
        \<or> right_duplicates_counter s1 = right_duplicates_counter s
          \<and> (\<exists>ln. right_paired s1 = right_paired s @ right_header pf opt h # ls
                       @ replicate m (last (ln # ls)))
          \<and> right_single s1 = right_single s
        \<or> right_duplicates_counter s1 = right_duplicates_counter s
          \<and> right_paired s1 = right_paired s
          \<and> right_single s1 = right_single s @ right_header pf opt h # ls
                       @ replicate m (last (record_key pf opt [h] # ls)))"
proof -
  let ?n = "MAXLINELEN pf"
  let ?key = "record_key pf opt [h]"
  let ?b = "bucket_of pf opt ?key"
  let ?q = "length pre + length h + length (concat ls)"
  let ?s = "s\<lparr>line := h, rfp := length pre + length h\<rparr>"
  have f: "fgets ?n R (rfp s) = Some (h, length pre + length h)"
    using fgets_wf_line [OF h, of pre "concat ls @ post"] by (simp add: R p)
  have R': "R = (pre @ h) @ concat ls @ post" by (simp add: R)
  have sk: "skip_lines 3 ?n R (length pre + length h, x) = (?q, last (x # ls))" for x
    using skip_lines_tail [OF ls m, of "pre @ h" x] by (simp add: len R)
  have rl: "right_lines 3 ?n R ((length pre + length h, x), out)
      = ((?q, last (x # ls)), out @ ls @ replicate m (last (x # ls)))" for x out
    using right_lines_tail [OF ls m, of "pre @ h" x out] by (simp add: len R)
  note kk = header_key [OF h k, of "[]", simplified]
  note w = null_buckets_nth [OF nb bucket_of_bound [OF t], of pf ?key]
  have hd: "right_header pf opt h = (if formatid opt then catstr ?key ''2\<newline>'' else h)"
    by (simp add: right_header_def)
  have "\<exists>s1. right_record pf opt L R ?s = Inr s1
     \<and> rfp s1 = ?q
     \<and> wild_left s1 = wild_left s \<and> wild_right s1 = wild_right s
     \<and> right_count s1 = right_count s + 1
     \<and> (deduplicate opt \<and> right_duplicates_counter s1 = right_duplicates_counter s + 1
          \<and> right_paired s1 = right_paired s \<and> right_single s1 = right_single s
        \<or> right_duplicates_counter s1 = right_duplicates_counter s
          \<and> (\<exists>ln. right_paired s1 = right_paired s @ right_header pf opt h # ls
                       @ replicate m (last (ln # ls)))
          \<and> right_single s1 = right_single s
        \<or> right_duplicates_counter s1 = right_duplicates_counter s
          \<and> right_paired s1 = right_paired s
          \<and> right_single s1 = right_single s @ right_header pf opt h # ls
                       @ replicate m (last (?key # ls)))"
  proof (cases "deduplicate opt \<and> find_existing (ids_right s ! ?b) ?key")
    case True
    then show ?thesis
      unfolding right_record_def
      by (simp add: kk dupstr_def bucket_wf [OF t] sk Let_def p right_count_def
          del: skip_lines.simps last.simps)
  next
    case nodup: False
    with w have wr: "\<not> (deduplicate opt \<and> wild_right s ?b)" by auto
    show ?thesis
    proof (cases "fst (lookup_chain ?key (ids_left s ! ?b) (- 1)) = - 1")
      case True
      from nodup wr w(1) True show ?thesis
        unfolding right_record_def
        by (simp add: kk dupstr_def bucket_wf [OF t] rl Let_def p right_count_def hd
            writeToFile_def del: right_lines.simps left_lines.simps last.simps)
    next
      case False
      from nodup wr w(1) False show ?thesis
        unfolding right_record_def emit_left_mate_def emit_right_mate_def
        by (auto simp add: kk dupstr_def bucket_wf [OF t] rl Let_def p right_count_def hd
            writeToFile_def simp del: right_lines.simps left_lines.simps last.simps)
    qed
  qed
  then obtain s1 where s1: "right_record pf opt L R ?s = Inr s1"
    and rest: "rfp s1 = ?q
     \<and> wild_left s1 = wild_left s \<and> wild_right s1 = wild_right s
     \<and> right_count s1 = right_count s + 1
     \<and> (deduplicate opt \<and> right_duplicates_counter s1 = right_duplicates_counter s + 1
          \<and> right_paired s1 = right_paired s \<and> right_single s1 = right_single s
        \<or> right_duplicates_counter s1 = right_duplicates_counter s
          \<and> (\<exists>ln. right_paired s1 = right_paired s @ right_header pf opt h # ls
                       @ replicate m (last (ln # ls)))
          \<and> right_single s1 = right_single s
        \<or> right_duplicates_counter s1 = right_duplicates_counter s
          \<and> right_paired s1 = right_paired s
          \<and> right_single s1 = right_single s @ right_header pf opt h # ls
                       @ replicate m (last (?key # ls)))"
    by blast
  have "right_loop pf opt L R s = right_loop pf opt L R s1"
    by (subst right_loop.simps) (simp add: f s1)
  with rest show ?thesis
    by (intro exI [of _ s1]) simp
qed

lemma right_loop_lines_written:
  assumes h: "wf_line (MAXLINELEN pf) h" and ls: "\<forall>l \<in> set ls. wf_line (MAXLINELEN pf) l"
    and k: "2 \<le> length (strip_line (splitspace opt) h)"
    and len: "length ls + m = 3" and m: "m = 0 \<or> post = []"
    and t: "0 < tablesize opt"
    and R: "R = pre @ h @ concat ls @ post" and p: "rfp s = length pre"
    and nb: "null_buckets opt (wild_left s) (wild_right s)"
  shows "\<exists>s1. right_loop pf opt L R s = right_loop pf opt L R s1
     \<and> rfp s1 = length pre + length (concat (h # ls))
     \<and> wild_left s1 = wild_left s \<and> wild_right s1 = wild_right s
     \<and> right_count s1 = right_count s + 1
     \<and> right_written s1 = right_written s + 4"
proof -
  from right_loop_lines [OF assms, of L] obtain s1 where
    a: "right_loop pf opt L R s = right_loop pf opt L R s1"
      "rfp s1 = length pre + length (concat (h # ls))"
      "wild_left s1 = wild_left s" "wild_right s1 = wild_right s"
      "right_count s1 = right_count s + 1"
    and d: "deduplicate opt \<and> right_duplicates_counter s1 = right_duplicates_counter s + 1
          \<and> right_paired s1 = right_paired s \<and> right_single s1 = right_single s
        \<or> right_duplicates_counter s1 = right_duplicates_counter s
          \<and> (\<exists>ln. right_paired s1 = right_paired s @ right_header pf opt h # ls
                       @ replicate m (last (ln # ls)))
          \<and> right_single s1 = right_single s
        \<or> right_duplicates_counter s1 = right_duplicates_counter s
          \<and> right_paired s1 = right_paired s
          \<and> right_single s1 = right_single s @ right_header pf opt h # ls
                       @ replicate m (last (record_key pf opt [h] # ls))"
    by blast
  from d len have "right_written s1 = right_written s + 4"
    by (auto simp: right_written_def)
  with a show ?thesis by blast
qed

lemma right_loop_records_post:
  assumes "\<forall>r \<in> set recs. wf_record pf opt r" and "0 < tablesize opt"
    and "R = pre @ file_of recs @ post" and "rfp s = length pre"
    and "null_buckets opt (wild_left s) (wild_right s)"
  shows "\<exists>s1. right_loop pf opt L R s = right_loop pf opt L R s1
     \<and> rfp s1 = length pre + length (file_of recs)
     \<and> wild_left s1 = wild_left s \<and> wild_right s1 = wild_right s
     \<and> right_count s1 = right_count s + int (length recs)
     \<and> right_written s1 = right_written s + 4 * int (length recs)"
  using assms
proof (induction recs arbitrary: pre s)
  case Nil
  then show ?case by (intro exI [of _ s]) (simp add: file_of_def)
next
  case (Cons r recs)
  from Cons.prems have wf: "wf_record pf opt r" and wfs: "\<forall>r \<in> set recs. wf_record pf opt r"
    by simp_all
  note t = Cons.prems(2)
  from wf obtain h a b c where r: "r = [h, a, b, c]"
    and h: "wf_line (MAXLINELEN pf) h" and abc: "\<forall>l \<in> set [a, b, c]. wf_line (MAXLINELEN pf) l"
    by (rule wf_record_lines) simp
  from wf r have k: "2 \<le> length (strip_line (splitspace opt) h)" by (simp add: wf_record_def)
  have len: "length [a, b, c] + 0 = 3" by simp
  have m: "(0::nat) = 0 \<or> file_of recs @ post = []" by simp
  from Cons.prems have R: "R = pre @ h @ concat [a, b, c] @ file_of recs @ post"
    by (simp add: file_of_def r)
  from right_loop_lines_written [OF h abc k len m t R Cons.prems(4) Cons.prems(5), of L]
  obtain s1 where s1: "right_loop pf opt L R s = right_loop pf opt L R s1"
    and p1: "rfp s1 = length pre + length (concat r)"
    and w1: "wild_left s1 = wild_left s" "wild_right s1 = wild_right s"
    and c1: "right_count s1 = right_count s + 1" "right_written s1 = right_written s + 4"
    unfolding r by blast
  have R': "R = (pre @ concat r) @ file_of recs @ post"
    using Cons.prems(3) by (simp add: file_of_def)
  have p1': "rfp s1 = length (pre @ concat r)" using p1 by simp
  have nb1: "null_buckets opt (wild_left s1) (wild_right s1)"
    using Cons.prems(5) by (simp add: w1)
  from Cons.IH [OF wfs t R' p1' nb1]
  obtain s2 where s2: "right_loop pf opt L R s1 = right_loop pf opt L R s2"
    and p2: "rfp s2 = length (pre @ concat r) + length (file_of recs)"
    and w2: "wild_left s2 = wild_left s1" "wild_right s2 = wild_right s1"
    and c2: "right_count s2 = right_count s1 + int (length recs)"
      "right_written s2 = right_written s1 + 4 * int (length recs)"
    by blast
  show ?case
    by (rule exI [of _ s2]) (simp add: s1 s2 p2 w1 w2 c1 c2 file_of_def)
qed

lemma right_loop_partial:
  assumes wf: "\<forall>r \<in> set recs. wf_record pf opt r" and part: "wf_partial pf opt part"
    and t: "0 < tablesize opt"
    and R: "R = pre @ file_of recs @ concat part" and p: "rfp s = length pre"
    and nb: "null_buckets opt (wild_left s) (wild_right s)"
  shows "\<exists>s'. right_loop pf opt L R s = Inr s'
     \<and> wild_left s' = wild_left s \<and> wild_right s' = wild_right s
     \<and> right_count s' = right_count s + int (length recs) + 1
     \<and> right_written s' = right_written s + 4 * (int (length recs) + 1)
     \<and> (deduplicate opt
        \<or> (\<exists>front ln. right_paired s' = front @ right_header pf opt (hd part) # tl part
                       @ replicate (4 - length part) (last (ln # tl part)))
        \<or> (\<exists>front. right_single s' = front @ right_header pf opt (hd part) # tl part
                       @ replicate (4 - length part) (last (record_key pf opt part # tl part))))"
proof -
  from part obtain h ls where r: "part = h # ls" and h: "wf_line (MAXLINELEN pf) h"
    and ls: "\<forall>l \<in> set ls. wf_line (MAXLINELEN pf) l" and len: "length ls < 3"
    and k: "2 \<le> length (strip_line (splitspace opt) h)"
    by (rule wf_partial_lines)
  from len have len': "length ls + (3 - length ls) = 3" by simp
  have m: "3 - length ls = 0 \<or> ([]::string) = []" by simp
  have R0: "R = pre @ file_of recs @ concat part" by (rule R)
  from right_loop_records_post [OF wf t R0 p nb, of L]
  obtain s1 where s1: "right_loop pf opt L R s = right_loop pf opt L R s1"
    and p1: "rfp s1 = length pre + length (file_of recs)"
    and w1: "wild_left s1 = wild_left s" "wild_right s1 = wild_right s"
    and c1: "right_count s1 = right_count s + int (length recs)"
      "right_written s1 = right_written s + 4 * int (length recs)"
    by blast
  have R1: "R = (pre @ file_of recs) @ h @ concat ls @ []" by (simp add: R r)
  have p1': "rfp s1 = length (pre @ file_of recs)" using p1 by simp
  have nb1: "null_buckets opt (wild_left s1) (wild_right s1)"
    using nb by (simp add: w1)
  from right_loop_lines [OF h ls k len' m t R1 p1' nb1, of L]
  obtain s2 where s2: "right_loop pf opt L R s1 = right_loop pf opt L R s2"
    and p2: "rfp s2 = length (pre @ file_of recs) + length (concat (h # ls))"
    and w2: "wild_left s2 = wild_left s1" "wild_right s2 = wild_right s1"
    and c2: "right_count s2 = right_count s1 + 1"
    and d: "deduplicate opt \<and> right_duplicates_counter s2 = right_duplicates_counter s1 + 1
          \<and> right_paired s2 = right_paired s1 \<and> right_single s2 = right_single s1
        \<or> right_duplicates_counter s2 = right_duplicates_counter s1
          \<and> (\<exists>ln. right_paired s2 = right_paired s1 @ right_header pf opt h # ls
                       @ replicate (3 - length ls) (last (ln # ls)))
          \<and> right_single s2 = right_single s1
        \<or> right_duplicates_counter s2 = right_duplicates_counter s1
          \<and> right_paired s2 = right_paired s1
          \<and> right_single s2 = right_single s1 @ right_header pf opt h # ls
                       @ replicate (3 - length ls) (last (record_key pf opt [h] # ls))"
    by blast
  from d len have c3: "right_written s2 = right_written s1 + 4"
    by (auto simp: right_written_def)
  have e: "right_loop pf opt L R s2 = Inr s2"
    by (rule right_loop_eof) (simp add: R r p2)
  have rk: "record_key pf opt (h # ls) = record_key pf opt [h]"
    by (simp add: record_key_def)
  from d have d': "deduplicate opt
        \<or> (\<exists>front ln. right_paired s2 = front @ right_header pf opt (hd part) # tl part
                       @ replicate (4 - length part) (last (ln # tl part)))
        \<or> (\<exists>front. right_single s2 = front @ right_header pf opt (hd part) # tl part
                       @ replicate (4 - length part) (last (record_key pf opt part # tl part)))"
    unfolding r rk by (simp del: last.simps) blast
  show ?thesis
    by (rule exI [of _ s2]) (simp add: s1 s2 e w1 w2 c1 c2 c3 d' del: last.simps)
qed

lemma left_loop_tail:
  assumes wf: "\<forall>r \<in> set recs. wf_record pf opt r" and part: "part = [] \<or> wf_partial pf opt part"
    and t: "0 < tablesize opt"
    and L: "L = pre @ file_of recs @ concat part" and p: "lfp s = length pre"
    and nb: "null_buckets opt (wild_left s) (wild_right s)"
  shows "left_loop pf opt L s
     = Inr (if part = [] then index_records pf opt recs s
            else index_partial pf opt part (index_records pf opt recs s))"
proof (cases "part = []")
  case True
  with L have "L = pre @ file_of recs" by simp
  with wf t have "left_loop pf opt L s = Inr (index_records pf opt recs s)"
    using p nb by (rule left_loop_records)
  with True show ?thesis by simp
next
  case False
  with part have "wf_partial pf opt part" by simp
  with wf have "left_loop pf opt L s = Inr (index_partial pf opt part (index_records pf opt recs s))"
    using t L p nb by (rule left_loop_partial)
  with False show ?thesis by simp
qed

lemma right_loop_tail:
  assumes wf: "\<forall>r \<in> set recs. wf_record pf opt r" and part: "part = [] \<or> wf_partial pf opt part"
    and t: "0 < tablesize opt"
    and R: "R = pre @ file_of recs @ concat part" and p: "rfp s = length pre"
    and nb: "null_buckets opt (wild_left s) (wild_right s)"
  shows "\<exists>s'. right_loop pf opt L R s = Inr s'
     \<and> wild_left s' = wild_left s \<and> wild_right s' = wild_right s
     \<and> right_count s' = right_count s + int (length recs) + (if part = [] then 0 else 1)
     \<and> right_written s' = right_written s + 4 * (int (length recs) + (if part = [] then 0 else 1))
     \<and> (part \<noteq> [] \<longrightarrow> deduplicate opt
        \<or> (\<exists>front ln. right_paired s' = front @ right_header pf opt (hd part) # tl part
                       @ replicate (4 - length part) (last (ln # tl part)))
        \<or> (\<exists>front. right_single s' = front @ right_header pf opt (hd part) # tl part
                       @ replicate (4 - length part) (last (record_key pf opt part # tl part))))"
proof (cases "part = []")
  case True
  from right_loop_records_post [OF wf t R p nb, of L]
  obtain s1 where s1: "right_loop pf opt L R s = right_loop pf opt L R s1"
    and p1: "rfp s1 = length pre + length (file_of recs)"
    and w1: "wild_left s1 = wild_left s" "wild_right s1 = wild_right s"
    and c1: "right_count s1 = right_count s + int (length recs)"
      "right_written s1 = right_written s + 4 * int (length recs)"
    by blast
  have e: "right_loop pf opt L R s1 = Inr s1"
    by (rule right_loop_eof) (simp add: R True p1)
  show ?thesis
    by (rule exI [of _ s1]) (simp add: s1 e w1 c1 True)
next
  case False
  with part have "wf_partial pf opt part" by simp
  from right_loop_partial [OF wf this t R p nb, of L] False show ?thesis
    by simp
qed

lemma index_records_nextposition:
  "nextposition (index_records pf opt recs s)
     = (if recs = [] then nextposition s else int (lfp s + length (file_of recs)))"
proof (induction recs arbitrary: s)
  case Nil
  show ?case by simp
next
  case (Cons r recs)
  show ?case by (simp add: Cons.IH file_of_def)
qed

lemma pair_files_tail:
  assumes wl: "\<forall>r \<in> set lrecs. wf_record pf opt r"
    and lp: "lpart = [] \<or> wf_partial pf opt lpart"
    and wr: "\<forall>r \<in> set rrecs. wf_record pf opt r"
    and rp: "rpart = [] \<or> wf_partial pf opt rpart"
    and t: "0 < tablesize opt" and nb: "null_buckets opt wl wr"
  shows "\<exists>res. pair_files pf opt wl wr buf (file_of lrecs @ concat lpart)
                 (file_of rrecs @ concat rpart) = Inr res
     \<and> n_right_paired res + n_right_single res + n_right_duplicates res
         = int (length rrecs) + (if rpart = [] then 0 else 1)
     \<and> int (length (out_right_paired res)) + int (length (out_right_single res))
         + 4 * n_right_duplicates res
         = 4 * (int (length rrecs) + (if rpart = [] then 0 else 1))
     \<and> (rpart \<noteq> [] \<longrightarrow> deduplicate opt
        \<or> (\<exists>front ln. out_right_paired res = front @ right_header pf opt (hd rpart) # tl rpart
                       @ replicate (4 - length rpart) (last (ln # tl rpart)))
        \<or> (\<exists>front. out_right_single res = front @ right_header pf opt (hd rpart) # tl rpart
                       @ replicate (4 - length rpart) (last (record_key pf opt rpart # tl rpart))))"
proof -
  let ?L = "file_of lrecs @ concat lpart" and ?R = "file_of rrecs @ concat rpart"
  let ?s0 = "init_locals opt wl wr buf"
  let ?s1 = "if lpart = [] then index_records pf opt lrecs ?s0
             else index_partial pf opt lpart (index_records pf opt lrecs ?s0)"
  have i: "lfp ?s0 = length ([]::string)" "wild_left ?s0 = wl" "wild_right ?s0 = wr"
    "rfp ?s0 = 0" "right_count ?s0 = 0" "right_written ?s0 = 0"
    by (simp_all add: init_locals_def right_count_def right_written_def)
  have l: "left_loop pf opt ?L ?s0 = Inr ?s1"
    using wl lp t by (rule left_loop_tail [where pre = "[]"]) (simp_all add: i nb)
  have f: "rfp ?s1 = 0" "wild_left ?s1 = wl" "wild_right ?s1 = wr"
    "right_count ?s1 = 0" "right_written ?s1 = 0"
    using i by (simp_all add: index_partial_def right_count_def right_written_def)
  let ?t = "?s1\<lparr>nextposition := 0\<rparr>"
  have ft: "rfp ?t = length ([]::string)" "null_buckets opt (wild_left ?t) (wild_right ?t)"
    using f nb by simp_all
  have R: "?R = [] @ file_of rrecs @ concat rpart" by simp
  from right_loop_tail [OF wr rp t R ft, of ?L]
  obtain s2 where s2: "right_loop pf opt ?L ?R ?t = Inr s2"
    and w2: "wild_left s2 = wild_left ?t"
    and c2: "right_count s2 = right_count ?t + int (length rrecs) + (if rpart = [] then 0 else 1)"
      "right_written s2 = right_written ?t
         + 4 * (int (length rrecs) + (if rpart = [] then 0 else 1))"
    and d: "rpart \<noteq> [] \<longrightarrow> deduplicate opt
        \<or> (\<exists>front ln. right_paired s2 = front @ right_header pf opt (hd rpart) # tl rpart
                       @ replicate (4 - length rpart) (last (ln # tl rpart)))
        \<or> (\<exists>front. right_single s2 = front @ right_header pf opt (hd rpart) # tl rpart
                       @ replicate (4 - length rpart) (last (record_key pf opt rpart # tl rpart)))"
    by blast
  have ct: "right_count ?t = 0" "right_written ?t = 0"
    using f by (simp_all add: right_count_def right_written_def)
  from w2 f have "wild_left s2 = wl" by simp
  with nb have sw: "sweep pf opt ?L s2 = Inr (emit_table pf opt ?L (ids_left s2) s2)"
    by (simp add: sweep_def null_buckets_sweep)
  let ?res = "report (emit_table pf opt ?L (ids_left s2) s2)"
  from t have run: "pair_files pf opt wl wr buf ?L ?R = Inr ?res"
    by (simp add: pair_files_def l s2 sw del: emit_table.simps)
  have r1: "n_right_paired ?res + n_right_single ?res + n_right_duplicates ?res
         = int (length rrecs) + (if rpart = [] then 0 else 1)"
    using c2(1) ct(1) by (simp add: report_def right_count_def)
  have r2: "int (length (out_right_paired ?res)) + int (length (out_right_single ?res))
         + 4 * n_right_duplicates ?res
         = 4 * (int (length rrecs) + (if rpart = [] then 0 else 1))"
    using c2(2) ct(2) by (simp add: report_def right_written_def)
  have r3: "rpart \<noteq> [] \<longrightarrow> deduplicate opt
        \<or> (\<exists>front ln. out_right_paired ?res = front @ right_header pf opt (hd rpart) # tl rpart
                       @ replicate (4 - length rpart) (last (ln # tl rpart)))
        \<or> (\<exists>front. out_right_single ?res = front @ right_header pf opt (hd rpart) # tl rpart
                       @ replicate (4 - length rpart) (last (record_key pf opt rpart # tl rpart)))"
    using d by (simp add: report_def del: last.simps)
  show ?thesis
    by (rule exI [of _ ?res]) (intro conjI run r1 r2 r3)
qed

lemma index_partial_ids_left:
  "ids_left (index_partial pf opt r s) =
     (if deduplicate opt
         \<and> record_key pf opt r \<in> id_str ` set (ids_left s ! bucket_of pf opt (record_key pf opt r))
      then ids_left s
      else insert_head (ids_left s) (bucket_of pf opt (record_key pf opt r))
             (record_key pf opt r) (nextposition s))"
  by (simp add: index_record_ids_left Let_def)

text \<open>
  C4, amended: a file that ends inside a record is not detected, and the run goes on. A read
  at the end of a file returns the null pointer and leaves position and buffer as they were,
  and the loops that read the lines of a record ignore the result: when only the well-formed
  lines \<open>ls\<close> remain and \<open>length ls + m\<close> lines are asked for, the skipping loop ends at the
  end of the file, and the copying loops write the lines \<open>ls\<close> followed by \<open>m\<close> copies of the
  last text of the buffer. Let each file be a sequence of well-formed records followed by at
  most one partial record (one to three well-formed lines, the stripped header of at least
  two characters), the table size positive and the fresh bucket arrays null. Then the first
  loop returns, and it has treated the partial record of the first file as it treats a
  complete one: entered at its offset in the index, or counted as a duplicate. The run
  returns a result; its three counters of the second file account for every record of that
  file, the partial one included; four lines have been written for each of these records
  that is not counted as a duplicate; and without duplicate tracking the last four lines of
  right-paired or of right-single are the header of the partial record, its lines, and
  copies of the last text of the buffer.
\<close>

theorem truncated_record_not_detected:
  "(length content \<le> p \<longrightarrow> readFromFile n content (p, ln) = (False, p, ln))
   \<and> ((\<forall>l \<in> set ls. wf_line n l) \<longrightarrow>
        skip_lines (length ls + m) n (pre @ concat ls) (length pre, ln)
          = (length pre + length (concat ls), last (ln # ls))
        \<and> right_lines (length ls + m) n (pre @ concat ls) ((length pre, ln), out)
          = ((length pre + length (concat ls), last (ln # ls)),
             out @ ls @ replicate m (last (ln # ls)))
        \<and> (ls \<noteq> [] \<longrightarrow>
             left_lines (length ls + m) 0 n (pre @ concat ls) fmt ident ((length pre, ln), out)
               = ((length pre + length (concat ls), last ls),
                  out @ (if fmt then catstr ident ''1\<newline>'' # tl ls else ls)
                      @ replicate m (last ls))))
   \<and> ((\<forall>r \<in> set lrecs. wf_record pf opt r) \<and> wf_partial pf opt lpart
        \<and> 0 < tablesize opt \<and> null_buckets opt wl wr \<longrightarrow>
        left_loop pf opt (file_of lrecs @ concat lpart) (init_locals opt wl wr buf)
          = Inr (index_partial pf opt lpart (index_records pf opt lrecs (init_locals opt wl wr buf)))
        \<and> nextposition (index_records pf opt lrecs (init_locals opt wl wr buf))
            = int (length (file_of lrecs))
        \<and> ids_left (index_partial pf opt lpart s) =
            (if deduplicate opt
                \<and> record_key pf opt lpart
                    \<in> id_str ` set (ids_left s ! bucket_of pf opt (record_key pf opt lpart))
             then ids_left s
             else insert_head (ids_left s) (bucket_of pf opt (record_key pf opt lpart))
                    (record_key pf opt lpart) (nextposition s))
        \<and> left_duplicates_counter (index_partial pf opt lpart s) =
            (if deduplicate opt
                \<and> record_key pf opt lpart
                    \<in> id_str ` set (ids_left s ! bucket_of pf opt (record_key pf opt lpart))
             then left_duplicates_counter s + 1 else left_duplicates_counter s))
   \<and> ((\<forall>r \<in> set lrecs. wf_record pf opt r) \<and> (lpart = [] \<or> wf_partial pf opt lpart)
        \<and> (\<forall>r \<in> set rrecs. wf_record pf opt r) \<and> (rpart = [] \<or> wf_partial pf opt rpart)
        \<and> 0 < tablesize opt \<and> null_buckets opt wl wr \<longrightarrow>
        (\<exists>res. pair_files pf opt wl wr buf (file_of lrecs @ concat lpart)
                 (file_of rrecs @ concat rpart) = Inr res
           \<and> n_right_paired res + n_right_single res + n_right_duplicates res
               = int (length rrecs) + (if rpart = [] then 0 else 1)
           \<and> int (length (out_right_paired res)) + int (length (out_right_single res))
               + 4 * n_right_duplicates res
               = 4 * (int (length rrecs) + (if rpart = [] then 0 else 1))
           \<and> (rpart \<noteq> [] \<longrightarrow> deduplicate opt
              \<or> (\<exists>front ln. out_right_paired res
                     = front @ right_header pf opt (hd rpart) # tl rpart
                         @ replicate (4 - length rpart) (last (ln # tl rpart)))
              \<or> (\<exists>front. out_right_single res
                     = front @ right_header pf opt (hd rpart) # tl rpart
                         @ replicate (4 - length rpart)
                             (last (record_key pf opt rpart # tl rpart))))))"
proof (intro conjI impI)
  assume "length content \<le> p"
  then show "readFromFile n content (p, ln) = (False, p, ln)"
    by (rule readFromFile_eof)
next
  assume wf: "\<forall>l \<in> set ls. wf_line n l"
  have m: "m = 0 \<or> ([]::string) = []" by simp
  let ?c = "pre @ concat ls" and ?q = "length pre + length (concat ls)"
  note r = read_lines_tail [OF wf, of pre]
  have eof: "length ?c \<le> ?q" by simp
  from skip_lines_tail [OF wf m, of pre ln]
  show "skip_lines (length ls + m) n ?c (length pre, ln) = (?q, last (ln # ls))"
    by simp
  from right_lines_tail [OF wf m, of pre ln out]
  show "right_lines (length ls + m) n ?c ((length pre, ln), out)
          = ((?q, last (ln # ls)), out @ ls @ replicate m (last (ln # ls)))"
    by simp
  assume ne: "ls \<noteq> []"
  then show "left_lines (length ls + m) 0 n ?c fmt ident ((length pre, ln), out)
               = ((?q, last ls),
                  out @ (if fmt then catstr ident ''1\<newline>'' # tl ls else ls) @ replicate m (last ls))"
    unfolding left_lines_add left_lines_read [OF r] by (simp add: left_lines_eof [OF eof])
next
  assume a: "(\<forall>r \<in> set lrecs. wf_record pf opt r) \<and> wf_partial pf opt lpart
        \<and> 0 < tablesize opt \<and> null_buckets opt wl wr"
  let ?s0 = "init_locals opt wl wr buf"
  have i: "lfp ?s0 = length ([]::string)" "wild_left ?s0 = wl" "wild_right ?s0 = wr"
    "nextposition ?s0 = 0"
    by (simp_all add: init_locals_def)
  from a have wf: "\<forall>r \<in> set lrecs. wf_record pf opt r" and part: "wf_partial pf opt lpart"
    and t: "0 < tablesize opt" and nb: "null_buckets opt wl wr"
    by simp_all
  show "left_loop pf opt (file_of lrecs @ concat lpart) ?s0
          = Inr (index_partial pf opt lpart (index_records pf opt lrecs ?s0))"
    using wf part t by (rule left_loop_partial [where pre = "[]"]) (simp_all add: i nb)
  show "nextposition (index_records pf opt lrecs ?s0) = int (length (file_of lrecs))"
    using i by (simp add: index_records_nextposition file_of_def)
  show "ids_left (index_partial pf opt lpart s) =
            (if deduplicate opt
                \<and> record_key pf opt lpart
                    \<in> id_str ` set (ids_left s ! bucket_of pf opt (record_key pf opt lpart))
             then ids_left s
             else insert_head (ids_left s) (bucket_of pf opt (record_key pf opt lpart))
                    (record_key pf opt lpart) (nextposition s))"
    by (rule index_partial_ids_left)
  show "left_duplicates_counter (index_partial pf opt lpart s) =
            (if deduplicate opt
                \<and> record_key pf opt lpart
                    \<in> id_str ` set (ids_left s ! bucket_of pf opt (record_key pf opt lpart))
             then left_duplicates_counter s + 1 else left_duplicates_counter s)"
    by (simp add: index_record_def Let_def)
next
  assume a: "(\<forall>r \<in> set lrecs. wf_record pf opt r) \<and> (lpart = [] \<or> wf_partial pf opt lpart)
        \<and> (\<forall>r \<in> set rrecs. wf_record pf opt r) \<and> (rpart = [] \<or> wf_partial pf opt rpart)
        \<and> 0 < tablesize opt \<and> null_buckets opt wl wr"
  then have wl: "\<forall>r \<in> set lrecs. wf_record pf opt r"
    and lp: "lpart = [] \<or> wf_partial pf opt lpart"
    and wr: "\<forall>r \<in> set rrecs. wf_record pf opt r"
    and rp: "rpart = [] \<or> wf_partial pf opt rpart"
    and t: "0 < tablesize opt" and nb: "null_buckets opt wl wr"
    by simp_all
  from wl lp wr rp t nb
  show "\<exists>res. pair_files pf opt wl wr buf (file_of lrecs @ concat lpart)
                 (file_of rrecs @ concat rpart) = Inr res
           \<and> n_right_paired res + n_right_single res + n_right_duplicates res
               = int (length rrecs) + (if rpart = [] then 0 else 1)
           \<and> int (length (out_right_paired res)) + int (length (out_right_single res))
               + 4 * n_right_duplicates res
               = 4 * (int (length rrecs) + (if rpart = [] then 0 else 1))
           \<and> (rpart \<noteq> [] \<longrightarrow> deduplicate opt
              \<or> (\<exists>front ln. out_right_paired res
                     = front @ right_header pf opt (hd rpart) # tl rpart
                         @ replicate (4 - length rpart) (last (ln # tl rpart)))
              \<or> (\<exists>front. out_right_single res
                     = front @ right_header pf opt (hd rpart) # tl rpart
                         @ replicate (4 - length rpart)
                             (last (record_key pf opt rpart # tl rpart))))"
    by (rule pair_files_tail)
qed

theorem truncated_record_not_detected_witness:
  "readFromFile 100 ''@C/2\<newline>'' (5, ''@C/'') = (False, 5, ''@C/'')
   \<and> right_lines 3 100 ''@A/2\<newline>TT\<newline>'' ((5, ''@A/''), [''@A/2\<newline>''])
       = ((8, ''TT\<newline>''), [''@A/2\<newline>'', ''TT\<newline>'', ''TT\<newline>'', ''TT\<newline>''])
   \<and> left_lines 4 0 100 ''@A/1\<newline>AC\<newline>'' False ''@A/'' ((0, ''@A/''), [])
       = ((8, ''AC\<newline>''), [''@A/1\<newline>'', ''AC\<newline>'', ''AC\<newline>'', ''AC\<newline>''])
   \<and> left_loop \<lparr>MAXLINELEN = 100, char_signed = True\<rparr>
        \<lparr>tablesize = 1, deduplicate = False, splitspace = False, formatid = False\<rparr>
        ''@B/1\<newline>GG\<newline>+\<newline>JJ\<newline>@A/1\<newline>AC\<newline>''
        (init_locals \<lparr>tablesize = 1, deduplicate = False, splitspace = False, formatid = False\<rparr>
           (\<lambda>b. False) (\<lambda>b. False) [])
       = Inr ((init_locals \<lparr>tablesize = 1, deduplicate = False, splitspace = False, formatid = False\<rparr>
           (\<lambda>b. False) (\<lambda>b. False) [])
           \<lparr>line := ''AC\<newline>'', lfp := 21, nextposition := 21,
             ids_left := [[\<lparr>id_str = ''@A/'', pos = 13, printed = False\<rparr>,
                           \<lparr>id_str = ''@B/'', pos = 0, printed = False\<rparr>]]\<rparr>)
   \<and> (\<exists>res. pair_files \<lparr>MAXLINELEN = 100, char_signed = True\<rparr>
        \<lparr>tablesize = 1, deduplicate = False, splitspace = False, formatid = False\<rparr>
        (\<lambda>b. False) (\<lambda>b. False) []
        ''@B/1\<newline>GG\<newline>+\<newline>JJ\<newline>@A/1\<newline>AC\<newline>'' ''@C/2\<newline>'' = Inr res
        \<and> n_right_paired res + n_right_single res + n_right_duplicates res = 1
        \<and> int (length (out_right_paired res)) + int (length (out_right_single res))
            + 4 * n_right_duplicates res = 4)"
proof -
  let ?pf = "\<lparr>MAXLINELEN = 100, char_signed = True\<rparr>"
  let ?opt = "\<lparr>tablesize = 1, deduplicate = False, splitspace = False, formatid = False\<rparr>"
  let ?nw = "\<lambda>b::nat. False"
  let ?lrecs = "[[''@B/1\<newline>'', ''GG\<newline>'', ''+\<newline>'', ''JJ\<newline>'']]"
  let ?lpart = "[''@A/1\<newline>'', ''AC\<newline>'']"
  let ?rpart = "[''@C/2\<newline>'']"
  let ?i = "init_locals ?opt ?nw ?nw []"
  have n: "(3::nat) = Suc (Suc (Suc 0))" "(4::nat) = Suc (Suc (Suc (Suc 0)))"
    "(5::nat) = Suc (Suc (Suc (Suc (Suc 0))))"
    "(8::nat) = Suc (Suc (Suc (Suc (Suc (Suc (Suc (Suc 0)))))))"
    by simp_all
  from truncated_record_not_detected [where content = "''@C/2\<newline>''" and p = 5 and n = 100
      and ln = "''@C/''", THEN conjunct1]
  have c1: "readFromFile 100 ''@C/2\<newline>'' (5, ''@C/'') = (False, 5, ''@C/'')"
    by simp
  from truncated_record_not_detected [where n = 100 and ln = "''@A/''" and ls = "[''TT\<newline>'']"
      and m = 2 and pre = "''@A/2\<newline>''" and out = "[''@A/2\<newline>'']" and fmt = False
      and ident = "''@A/''", THEN conjunct2, THEN conjunct1]
  have c2: "right_lines 3 100 ''@A/2\<newline>TT\<newline>'' ((5, ''@A/''), [''@A/2\<newline>''])
       = ((8, ''TT\<newline>''), [''@A/2\<newline>'', ''TT\<newline>'', ''TT\<newline>'', ''TT\<newline>''])"
    by (simp add: wf_line_def n numeral_2_eq_2
        del: skip_lines.simps right_lines.simps left_lines.simps)
  from truncated_record_not_detected [where n = 100 and ln = "''@A/''"
      and ls = "[''@A/1\<newline>'', ''AC\<newline>'']" and m = 2 and pre = "[]" and out = "[]"
      and fmt = False and ident = "''@A/''", THEN conjunct2, THEN conjunct1]
  have c3: "left_lines 4 0 100 ''@A/1\<newline>AC\<newline>'' False ''@A/'' ((0, ''@A/''), [])
       = ((8, ''AC\<newline>''), [''@A/1\<newline>'', ''AC\<newline>'', ''AC\<newline>'', ''AC\<newline>''])"
    by (simp add: wf_line_def n numeral_2_eq_2
        del: skip_lines.simps right_lines.simps left_lines.simps)
  have wl: "\<forall>r \<in> set ?lrecs. wf_record ?pf ?opt r" by code_simp
  have lp: "wf_partial ?pf ?opt ?lpart" by code_simp
  have rp: "wf_partial ?pf ?opt ?rpart" by code_simp
  have t: "0 < tablesize ?opt" by simp
  have nb: "null_buckets ?opt ?nw ?nw" by (simp add: null_buckets_def list_all_iff)
  have L: "file_of ?lrecs @ concat ?lpart = ''@B/1\<newline>GG\<newline>+\<newline>JJ\<newline>@A/1\<newline>AC\<newline>''"
    and R: "file_of [] @ concat ?rpart = ''@C/2\<newline>''"
    by (simp_all add: file_of_def)
  have h3: "(\<forall>r \<in> set ?lrecs. wf_record ?pf ?opt r) \<and> wf_partial ?pf ?opt ?lpart
        \<and> 0 < tablesize ?opt \<and> null_buckets ?opt ?nw ?nw"
    using wl lp t nb by (intro conjI)
  note l = truncated_record_not_detected [where pf = ?pf and opt = ?opt and lrecs = ?lrecs
      and lpart = ?lpart and wl = ?nw and wr = ?nw and buf = "[]",
      THEN conjunct2, THEN conjunct2, THEN conjunct1, THEN mp, OF h3, THEN conjunct1]
  have k: "record_key ?pf ?opt [''@B/1\<newline>'', ''GG\<newline>'', ''+\<newline>'', ''JJ\<newline>''] = ''@B/''"
    "record_key ?pf ?opt ?lpart = ''@A/''"
    "bucket_of ?pf ?opt ''@B/'' = 0" "bucket_of ?pf ?opt ''@A/'' = 0"
    by code_simp+
  have c4: "left_loop ?pf ?opt ''@B/1\<newline>GG\<newline>+\<newline>JJ\<newline>@A/1\<newline>AC\<newline>'' ?i
       = Inr (?i\<lparr>line := ''AC\<newline>'', lfp := 21, nextposition := 21,
             ids_left := [[\<lparr>id_str = ''@A/'', pos = 13, printed = False\<rparr>,
                           \<lparr>id_str = ''@B/'', pos = 0, printed = False\<rparr>]]\<rparr>)"
    unfolding l [unfolded L]
    by (simp add: index_partial_def index_record_def k Let_def insert_head_def dupstr_def
        init_locals_def)
  have e: "\<forall>r \<in> set ([]::string list list). wf_record ?pf ?opt r" by simp
  have h4: "(\<forall>r \<in> set ?lrecs. wf_record ?pf ?opt r) \<and> (?lpart = [] \<or> wf_partial ?pf ?opt ?lpart)
        \<and> (\<forall>r \<in> set ([]::string list list). wf_record ?pf ?opt r)
        \<and> (?rpart = [] \<or> wf_partial ?pf ?opt ?rpart)
        \<and> 0 < tablesize ?opt \<and> null_buckets ?opt ?nw ?nw"
    using wl lp rp t nb e by (intro conjI disjI2)
  from truncated_record_not_detected [where pf = ?pf and opt = ?opt and lrecs = ?lrecs
      and lpart = ?lpart and rrecs = "[]" and rpart = ?rpart and wl = ?nw and wr = ?nw
      and buf = "[]", THEN conjunct2, THEN conjunct2, THEN conjunct2, THEN mp, OF h4]
  obtain res where res: "pair_files ?pf ?opt ?nw ?nw [] (file_of ?lrecs @ concat ?lpart)
                 (file_of [] @ concat ?rpart) = Inr res"
    and r1: "n_right_paired res + n_right_single res + n_right_duplicates res
               = int (length ([]::string list list)) + (if ?rpart = [] then 0 else 1)"
    and r2: "int (length (out_right_paired res)) + int (length (out_right_single res))
               + 4 * n_right_duplicates res
               = 4 * (int (length ([]::string list list)) + (if ?rpart = [] then 0 else 1))"
    by blast
  from res [unfolded L R] r1 r2
  have c5: "\<exists>res. pair_files ?pf ?opt ?nw ?nw []
        ''@B/1\<newline>GG\<newline>+\<newline>JJ\<newline>@A/1\<newline>AC\<newline>'' ''@C/2\<newline>'' = Inr res
        \<and> n_right_paired res + n_right_single res + n_right_duplicates res = 1
        \<and> int (length (out_right_paired res)) + int (length (out_right_single res))
            + 4 * n_right_duplicates res = 4"
    by (intro exI [of _ res]) simp
  from c1 c2 c3 c4 c5 show ?thesis by (intro conjI)
qed

subsection \<open>Paired records\<close>

text \<open>
  C3, as stated, fails: unique headers do not give unique ids. The headers \<open>@r4\<close> and \<open>@r5\<close>
  have no mate suffix, so the normalizer overwrites their last character and both get the id
  \<open>@r/\<close>. With these two records in both files, each lookup selects the entry of the record
  \<open>@r4\<close> (the first one inserted): that record is written to left-paired twice, and the
  left record \<open>@r5\<close>, whose id occurs in the second file, is written nowhere.
\<close>

theorem paired_twice_counterexample:
  "pair_files \<lparr>MAXLINELEN = 100, char_signed = True\<rparr>
     \<lparr>tablesize = 3, deduplicate = False, splitspace = False, formatid = False\<rparr>
     all_null all_null []
     (file_of [[''@r4\<newline>'', ''AC\<newline>'', ''+\<newline>'', ''II\<newline>''],
               [''@r5\<newline>'', ''GG\<newline>'', ''+\<newline>'', ''JJ\<newline>'']])
     (file_of [[''@r4\<newline>'', ''TT\<newline>'', ''+\<newline>'', ''KK\<newline>''],
               [''@r5\<newline>'', ''CC\<newline>'', ''+\<newline>'', ''LL\<newline>'']])
   = Inr \<lparr>out_left_paired = [''@r4\<newline>'', ''AC\<newline>'', ''+\<newline>'', ''II\<newline>'',
                              ''@r4\<newline>'', ''AC\<newline>'', ''+\<newline>'', ''II\<newline>''],
          out_left_single = [],
          out_right_paired = [''@r4\<newline>'', ''TT\<newline>'', ''+\<newline>'', ''KK\<newline>'',
                               ''@r5\<newline>'', ''CC\<newline>'', ''+\<newline>'', ''LL\<newline>''],
          out_right_single = [],
          n_left_paired = 2, n_right_paired = 2, n_left_single = 0, n_right_single = 0,
          n_left_duplicates = 0, n_right_duplicates = 0\<rparr>"
  by code_simp

text \<open>
  C3, amended: let each file be a sequence of well-formed records (four lines, each ending
  with its only newline and fitting the line buffer, the stripped header of at least two
  characters) whose normalized ids are distinct within the file; let the table size be
  positive and the fresh bucket arrays hold null pointers only. Then the run ends without
  error; the left-paired output is the concatenation of the left records that have a mate, as
  written, in the order of their mates in the second file, and the right-paired output that
  of the right records that have a mate; every left record whose id occurs in the second
  file occurs exactly once among the records written to left-paired, and its right
  counterpart exactly once among those written to right-paired.
\<close>

theorem paired_exactly_once:
  assumes wl: "\<forall>l \<in> set lrecs. wf_record pf opt l" and wr: "\<forall>r \<in> set rrecs. wf_record pf opt r"
    and dl: "distinct (map (record_key pf opt) lrecs)"
    and dr: "distinct (map (record_key pf opt) rrecs)"
    and t: "0 < tablesize opt" and nb: "null_buckets opt wl wr"
  shows "\<exists>res. pair_files pf opt wl wr buf (file_of lrecs) (file_of rrecs) = Inr res
     \<and> out_left_paired res = concat (map (left_out pf opt) (paired_left pf opt lrecs rrecs))
     \<and> out_right_paired res = concat (map (right_out pf opt) (paired_right pf opt lrecs rrecs))
     \<and> (\<forall>l \<in> set lrecs. has_mate pf opt rrecs l \<longrightarrow>
           count_list (map (left_out pf opt) (paired_left pf opt lrecs rrecs)) (left_out pf opt l) = 1
           \<and> (\<forall>r \<in> set rrecs. record_key pf opt r = record_key pf opt l \<longrightarrow>
                 count_list (map (right_out pf opt) (paired_right pf opt lrecs rrecs))
                   (right_out pf opt r) = 1))"
proof -
  let ?L = "file_of lrecs"
  let ?s2 = "matched pf opt wl wr buf lrecs rrecs"
  let ?res = "report (emit_table pf opt ?L (ids_left ?s2) ?s2)"
  have run: "pair_files pf opt wl wr buf ?L (file_of rrecs) = Inr ?res"
    using wl wr t nb by (rule pair_files_records)
  note out = matched_paired_out [OF wl wr dl dr t, of wl wr buf]
  have dpr: "distinct (map (record_key pf opt) (paired_right pf opt lrecs rrecs))"
    using dr by (rule paired_right_distinct)
  then have dpl: "distinct (map (record_key pf opt) (paired_left pf opt lrecs rrecs))"
    by (simp only: paired_left_keys [OF dl])
  have cl: "count_list (map (left_out pf opt) (paired_left pf opt lrecs rrecs)) (left_out pf opt l) = 1"
    if l: "l \<in> set lrecs" and m: "has_mate pf opt rrecs l" for l
    using dpl paired_left_mem [OF l m]
    by (rule count_list_map_once [where f = "record_key pf opt" and g = "left_out pf opt"])
      (blast dest: left_out_key)
  have cr: "count_list (map (right_out pf opt) (paired_right pf opt lrecs rrecs)) (right_out pf opt r) = 1"
    if l: "l \<in> set lrecs" and r: "r \<in> set rrecs"
      and k: "record_key pf opt r = record_key pf opt l" for l r
    using dpr paired_right_mem [OF l r k]
    by (rule count_list_map_once [where f = "record_key pf opt" and g = "right_out pf opt"])
      (blast dest: right_out_key)
  have o1: "out_left_paired ?res = concat (map (left_out pf opt) (paired_left pf opt lrecs rrecs))"
    by (simp add: report_def out)
  have o2: "out_right_paired ?res = concat (map (right_out pf opt) (paired_right pf opt lrecs rrecs))"
    by (simp add: report_def out)
  have c: "\<forall>l \<in> set lrecs. has_mate pf opt rrecs l \<longrightarrow>
           count_list (map (left_out pf opt) (paired_left pf opt lrecs rrecs)) (left_out pf opt l) = 1
           \<and> (\<forall>r \<in> set rrecs. record_key pf opt r = record_key pf opt l \<longrightarrow>
                 count_list (map (right_out pf opt) (paired_right pf opt lrecs rrecs))
                   (right_out pf opt r) = 1)"
  proof (intro ballI impI conjI)
    fix l
    assume "l \<in> set lrecs" and "has_mate pf opt rrecs l"
    then show "count_list (map (left_out pf opt) (paired_left pf opt lrecs rrecs)) (left_out pf opt l) = 1"
      by (rule cl)
  next
    fix l r
    assume "l \<in> set lrecs" and "r \<in> set rrecs" and "record_key pf opt r = record_key pf opt l"
    then show "count_list (map (right_out pf opt) (paired_right pf opt lrecs rrecs))
        (right_out pf opt r) = 1"
      by (rule cr)
  qed
  show ?thesis
    by (rule exI [of _ ?res]) (intro conjI run o1 o2 c)
qed

theorem paired_exactly_once_witness:
  "\<exists>res. pair_files \<lparr>MAXLINELEN = 100, char_signed = True\<rparr>
       \<lparr>tablesize = 3, deduplicate = True, splitspace = False, formatid = True\<rparr> (\<lambda>b. False) (\<lambda>b. False) []
       (file_of [[''@A/1\<newline>'', ''AC\<newline>'', ''+\<newline>'', ''II\<newline>''],
                 [''@B/1\<newline>'', ''GG\<newline>'', ''+\<newline>'', ''JJ\<newline>'']])
       (file_of [[''@C/2\<newline>'', ''CC\<newline>'', ''+\<newline>'', ''LL\<newline>''],
                 [''@A/2\<newline>'', ''TT\<newline>'', ''+\<newline>'', ''KK\<newline>'']]) = Inr res
     \<and> out_left_paired res = [''@A/1\<newline>'', ''AC\<newline>'', ''+\<newline>'', ''II\<newline>'']
     \<and> out_right_paired res = [''@A/2\<newline>'', ''TT\<newline>'', ''+\<newline>'', ''KK\<newline>'']"
proof -
  let ?pf = "\<lparr>MAXLINELEN = 100, char_signed = True\<rparr>"
  let ?opt = "\<lparr>tablesize = 3, deduplicate = True, splitspace = False, formatid = True\<rparr>"
  let ?ls = "[[''@A/1\<newline>'', ''AC\<newline>'', ''+\<newline>'', ''II\<newline>''],
              [''@B/1\<newline>'', ''GG\<newline>'', ''+\<newline>'', ''JJ\<newline>'']]"
  let ?rs = "[[''@C/2\<newline>'', ''CC\<newline>'', ''+\<newline>'', ''LL\<newline>''],
              [''@A/2\<newline>'', ''TT\<newline>'', ''+\<newline>'', ''KK\<newline>'']]"
  have wl: "\<forall>l \<in> set ?ls. wf_record ?pf ?opt l" by code_simp
  have wr: "\<forall>r \<in> set ?rs. wf_record ?pf ?opt r" by code_simp
  have dl: "distinct (map (record_key ?pf ?opt) ?ls)" by code_simp
  have dr: "distinct (map (record_key ?pf ?opt) ?rs)" by code_simp
  have t: "0 < tablesize ?opt" by simp
  have nb: "null_buckets ?opt (\<lambda>b. False) (\<lambda>b. False)" by (simp add: null_buckets_def list_all_iff)
  have pl: "concat (map (left_out ?pf ?opt) (paired_left ?pf ?opt ?ls ?rs))
      = [''@A/1\<newline>'', ''AC\<newline>'', ''+\<newline>'', ''II\<newline>'']"
    by code_simp
  have pr: "concat (map (right_out ?pf ?opt) (paired_right ?pf ?opt ?ls ?rs))
      = [''@A/2\<newline>'', ''TT\<newline>'', ''+\<newline>'', ''KK\<newline>'']"
    by code_simp
  from paired_exactly_once [OF wl wr dl dr t nb, of "[]"] show ?thesis
    unfolding pl pr by blast
qed

subsection \<open>Every record is counted once\<close>

lemma sum_list_map_update:
  fixes f :: "'a \<Rightarrow> nat"
  shows "b < length xs \<Longrightarrow> sum_list (map f (xs[b := c])) + f (xs ! b) = sum_list (map f xs) + f c"
proof (induction xs arbitrary: b)
  case Nil
  then show ?case by simp
next
  case (Cons x xs)
  then show ?case by (cases b) (simp_all add: add.assoc add.left_commute)
qed

lemma length_filter_concat:
  "length (filter P (concat xss)) = sum_list (map (\<lambda>xs. length (filter P xs)) xss)"
  by (induction xss) simp_all

lemma length_concat_update:
  assumes "b < length tbl"
  shows "length (concat (tbl[b := c])) + length (tbl ! b) = length (concat tbl) + length c"
  using sum_list_map_update [OF assms, of length c] by (simp add: length_concat)

lemma n_printed_update:
  assumes "b < length tbl"
  shows "n_printed (tbl[b := c]) + length (filter printed (tbl ! b))
       = n_printed tbl + length (filter printed c)"
  using sum_list_map_update [OF assms, of "\<lambda>xs. length (filter printed xs)" c]
  by (simp add: n_printed_def length_filter_concat)

lemma index_record_entries:
  assumes "bucket_of pf opt (record_key pf opt r) < length (ids_left s)"
  shows "int (length (concat (ids_left (index_record pf opt r s))))
           + left_duplicates_counter (index_record pf opt r s)
       = int (length (concat (ids_left s))) + left_duplicates_counter s + 1"
proof -
  let ?b = "bucket_of pf opt (record_key pf opt r)"
  let ?e = "\<lparr>id_str = record_key pf opt r, pos = nextposition s, printed = False\<rparr>"
  from length_concat_update [OF assms, of "?e # ids_left s ! ?b"]
  have "length (concat ((ids_left s)[?b := ?e # ids_left s ! ?b])) = Suc (length (concat (ids_left s)))"
    by simp
  then show ?thesis
    by (simp add: index_record_def Let_def insert_head_def dupstr_def)
qed

lemma index_records_entries:
  assumes "0 < tablesize opt" and "length (ids_left s) = nat (tablesize opt)"
  shows "int (length (concat (ids_left (index_records pf opt recs s))))
           + left_duplicates_counter (index_records pf opt recs s)
       = int (length (concat (ids_left s))) + left_duplicates_counter s + int (length recs)"
  using assms(2)
proof (induction recs arbitrary: s)
  case Nil
  show ?case by simp
next
  case (Cons r recs)
  have b: "bucket_of pf opt (record_key pf opt r) < length (ids_left s)"
    using bucket_of_bound [OF assms(1)] Cons.prems by simp
  have "length (ids_left (index_record pf opt r s)) = nat (tablesize opt)"
    using Cons.prems by simp
  from Cons.IH [OF this] index_record_entries [OF b]
  show ?case by simp
qed

lemma chains_distinct_update:
  "chains_distinct tbl \<Longrightarrow> distinct (map id_str chain) \<Longrightarrow> chains_distinct (tbl[b := chain])"
  unfolding chains_distinct_def
  by (auto dest!: subsetD [OF set_update_subset_insert])

lemma index_record_distinct:
  assumes "deduplicate opt" and "chains_distinct (ids_left s)"
    and b: "bucket_of pf opt (record_key pf opt r) < length (ids_left s)"
  shows "chains_distinct (ids_left (index_record pf opt r s))"
proof (cases "record_key pf opt r
    \<in> id_str ` set (ids_left s ! bucket_of pf opt (record_key pf opt r))")
  case True
  with assms show ?thesis by (simp add: index_record_ids_left Let_def)
next
  case False
  let ?b = "bucket_of pf opt (record_key pf opt r)"
  from b assms(2) have "distinct (map id_str (ids_left s ! ?b))"
    by (simp add: chains_distinct_def)
  with False have "distinct (map id_str
      (\<lparr>id_str = record_key pf opt r, pos = nextposition s, printed = False\<rparr> # ids_left s ! ?b))"
    by simp
  with assms(2) have "chains_distinct ((ids_left s)
      [?b := \<lparr>id_str = record_key pf opt r, pos = nextposition s, printed = False\<rparr> # ids_left s ! ?b])"
    by (rule chains_distinct_update)
  with False show ?thesis
    by (simp add: index_record_ids_left Let_def insert_head_def dupstr_def)
qed

lemma index_record_unprinted:
  assumes "n_printed (ids_left s) = 0"
    and b: "bucket_of pf opt (record_key pf opt r) < length (ids_left s)"
  shows "n_printed (ids_left (index_record pf opt r s)) = 0"
proof -
  let ?b = "bucket_of pf opt (record_key pf opt r)"
  let ?e = "\<lparr>id_str = record_key pf opt r, pos = nextposition s, printed = False\<rparr>"
  from n_printed_update [OF b, of "?e # ids_left s ! ?b"] assms(1)
  have "n_printed ((ids_left s)[?b := ?e # ids_left s ! ?b]) = 0" by simp
  with assms(1) show ?thesis
    by (simp add: index_record_ids_left Let_def insert_head_def dupstr_def)
qed

lemma index_records_dedup:
  assumes "deduplicate opt" and "0 < tablesize opt"
    and "length (ids_left s) = nat (tablesize opt)"
    and "chains_distinct (ids_left s)" and "n_printed (ids_left s) = 0"
  shows "chains_distinct (ids_left (index_records pf opt recs s))
       \<and> n_printed (ids_left (index_records pf opt recs s)) = 0"
  using assms(3-5)
proof (induction recs arbitrary: s)
  case Nil
  then show ?case by simp
next
  case (Cons r recs)
  have b: "bucket_of pf opt (record_key pf opt r) < length (ids_left s)"
    using bucket_of_bound [OF assms(2)] Cons.prems by simp
  show ?case
    unfolding index_records_simps
  proof (rule Cons.IH)
    show "length (ids_left (index_record pf opt r s)) = nat (tablesize opt)"
      using Cons.prems by simp
    show "chains_distinct (ids_left (index_record pf opt r s))"
      using assms(1) Cons.prems(2) b by (rule index_record_distinct)
    show "n_printed (ids_left (index_record pf opt r s)) = 0"
      using Cons.prems(3) b by (rule index_record_unprinted)
  qed
qed


lemma mark_printed_none: "key \<notin> id_str ` set chain \<Longrightarrow> map (mark_printed key) chain = chain"
  by (induction chain) (auto simp: mark_printed_def)

lemma map_id_str_mark: "map id_str (map (mark_printed key) chain) = map id_str chain"
  by (induction chain) simp_all

lemma mark_printed_count:
  assumes "distinct (map id_str chain)" and "key \<in> id_str ` set chain"
    and "\<forall>e \<in> set chain. id_str e = key \<longrightarrow> \<not> printed e"
  shows "length (filter printed (map (mark_printed key) chain))
       = Suc (length (filter printed chain))"
  using assms
proof (induction chain)
  case Nil
  then show ?case by simp
next
  case (Cons a chain)
  show ?case
  proof (cases "id_str a = key")
    case True
    with Cons.prems(1) have "key \<notin> id_str ` set chain" by auto
    then have m: "map (mark_printed key) chain = chain" by (rule mark_printed_none)
    from True have pa: "printed (mark_printed key a)" by (simp add: mark_printed_def)
    from True Cons.prems(3) have npa: "\<not> printed a" by simp
    show ?thesis by (simp add: m pa npa)
  next
    case False
    with Cons.prems have "distinct (map id_str chain)" and "key \<in> id_str ` set chain"
      and "\<forall>e \<in> set chain. id_str e = key \<longrightarrow> \<not> printed e"
      by auto
    from Cons.IH [OF this] False show ?thesis by (simp add: mark_printed_def)
  qed
qed

lemma printed_mark:
  "printed (mark_printed key e) \<longleftrightarrow> printed e \<or> id_str e = key"
  by (simp add: mark_printed_def)

lemma match_record_right_count:
  "right_count (match_record pf opt L r s) = right_count s + 1"
  by (simp add: match_record_def Let_def right_count_def)

lemma match_records_right_count:
  "right_count (match_records pf opt L recs s) = right_count s + int (length recs)"
  by (induction recs arbitrary: s) (simp_all add: match_record_right_count)

lemma match_record_dedup:
  assumes d: "deduplicate opt" and t: "0 < tablesize opt"
    and len: "length (ids_left s) = nat (tablesize opt)"
    and lenr: "length (ids_right s) = nat (tablesize opt)"
    and cd: "chains_distinct (ids_left s)" and ms: "marks_seen opt s"
    and lp: "left_paired_counter s = int (n_printed (ids_left s))"
  shows "length (ids_right (match_record pf opt L r s)) = nat (tablesize opt)"
    and "chains_distinct (ids_left (match_record pf opt L r s))"
    and "marks_seen opt (match_record pf opt L r s)"
    and "left_paired_counter (match_record pf opt L r s)
           = int (n_printed (ids_left (match_record pf opt L r s)))"
    and "length (concat (ids_left (match_record pf opt L r s))) = length (concat (ids_left s))"
proof -
  let ?key = "record_key pf opt r"
  let ?b = "bucket_of pf opt ?key"
  let ?chain = "ids_left s ! ?b"
  let ?s = "match_record pf opt L r s"
  have b: "?b < nat (tablesize opt)" using t by (rule bucket_of_bound)
  with len lenr have bl: "?b < length (ids_left s)" and br: "?b < length (ids_right s)"
    by simp_all
  show "length (ids_right ?s) = nat (tablesize opt)"
    using lenr by (simp add: match_record_ids_right Let_def)
  from cd bl have dc: "distinct (map id_str ?chain)"
    by (simp add: chains_distinct_def)
  show "chains_distinct (ids_left ?s)"
  proof (cases "?key \<in> id_str ` set (ids_right s ! ?b)")
    case True
    with d cd show ?thesis by (simp add: match_record_ids_left Let_def)
  next
    case False
    from dc have "distinct (map id_str (map (mark_printed ?key) ?chain))"
      by (simp only: map_id_str_mark)
    with cd have "chains_distinct ((ids_left s)[?b := map (mark_printed ?key) ?chain])"
      by (rule chains_distinct_update)
    with False show ?thesis by (simp add: match_record_ids_left Let_def)
  qed
  show "length (concat (ids_left ?s)) = length (concat (ids_left s))"
    using length_concat_update [OF bl, of "map (mark_printed ?key) ?chain"]
    by (simp add: match_record_ids_left Let_def)
  show "marks_seen opt ?s"
  proof (cases "?key \<in> id_str ` set (ids_right s ! ?b)")
    case True
    with d ms show ?thesis
      by (simp add: marks_seen_def match_record_ids_left match_record_ids_right Let_def)
  next
    case False
    have il: "ids_left ?s = (ids_left s)[?b := map (mark_printed ?key) ?chain]"
      using False by (simp add: match_record_ids_left Let_def)
    have ir: "ids_right ?s = insert_head (ids_right s) ?b ?key (nextposition s)"
      using False d by (simp add: match_record_ids_right Let_def)
    show ?thesis
      unfolding marks_seen_def
    proof (intro allI impI ballI)
      fix b' e
      assume b': "b' < nat (tablesize opt)" and e: "e \<in> set (ids_left ?s ! b')"
        and pe: "printed e"
      show "id_str e \<in> id_str ` set (ids_right ?s ! b')"
      proof (cases "b' = ?b")
        case True
        from e True bl obtain e0 where e0: "e0 \<in> set ?chain" and ee: "e = mark_printed ?key e0"
          by (auto simp: il)
        from pe ee have "printed e0 \<or> id_str e0 = ?key" by (simp add: printed_mark)
        then show ?thesis
        proof
          assume "printed e0"
          with ms b e0 have "id_str e0 \<in> id_str ` set (ids_right s ! ?b)"
            by (simp add: marks_seen_def)
          with True ee show ?thesis
            by (auto simp: ir insert_head_nth [OF br])
        next
          assume "id_str e0 = ?key"
          with True ee show ?thesis
            by (simp add: ir insert_head_nth [OF br] dupstr_def)
        qed
      next
        case False
        with e have "e \<in> set (ids_left s ! b')" by (simp add: il)
        with ms b' pe have "id_str e \<in> id_str ` set (ids_right s ! b')"
          by (simp add: marks_seen_def)
        with False show ?thesis
          by (simp add: ir insert_head_nth [OF br])
      qed
    qed
  qed
  show "left_paired_counter ?s = int (n_printed (ids_left ?s))"
  proof (cases "?key \<in> id_str ` set (ids_right s ! ?b)")
    case True
    with d lp show ?thesis by (simp add: match_record_def Let_def)
  next
    case nodup: False
    note u = n_printed_update [OF bl, of "map (mark_printed ?key) ?chain"]
    show ?thesis
    proof (cases "?key \<in> id_str ` set ?chain")
      case True
      have "\<forall>e \<in> set ?chain. id_str e = ?key \<longrightarrow> \<not> printed e"
      proof (intro ballI impI notI)
        fix e
        assume e: "e \<in> set ?chain" and k: "id_str e = ?key" and pe: "printed e"
        from ms b e pe have "id_str e \<in> id_str ` set (ids_right s ! ?b)"
          by (simp add: marks_seen_def)
        with k nodup show False by simp
      qed
      with dc True have "length (filter printed (map (mark_printed ?key) ?chain))
          = Suc (length (filter printed ?chain))"
        by (rule mark_printed_count)
      with u have "n_printed ((ids_left s)[?b := map (mark_printed ?key) ?chain])
          = Suc (n_printed (ids_left s))"
        by simp
      moreover from True have "matching ?key ?chain \<noteq> []"
        by (simp add: matching_empty_iff)
      ultimately show ?thesis
        using nodup lp by (simp add: match_record_def Let_def)
    next
      case False
      then have "map (mark_printed ?key) ?chain = ?chain" by (rule mark_printed_none)
      with u have "n_printed ((ids_left s)[?b := map (mark_printed ?key) ?chain])
          = n_printed (ids_left s)"
        by simp
      moreover from False have "matching ?key ?chain = []"
        by (simp add: matching_empty_iff)
      ultimately show ?thesis
        using nodup lp by (simp add: match_record_def Let_def)
    qed
  qed
qed

lemma match_records_dedup:
  assumes d: "deduplicate opt" and t: "0 < tablesize opt"
    and "length (ids_left s) = nat (tablesize opt)"
    and "length (ids_right s) = nat (tablesize opt)"
    and "chains_distinct (ids_left s)" and "marks_seen opt s"
    and "left_paired_counter s = int (n_printed (ids_left s))"
  shows "left_paired_counter (match_records pf opt L recs s)
           = int (n_printed (ids_left (match_records pf opt L recs s)))
       \<and> length (concat (ids_left (match_records pf opt L recs s)))
           = length (concat (ids_left s))"
  using assms(3-7)
proof (induction recs arbitrary: s)
  case Nil
  then show ?case by simp
next
  case (Cons r recs)
  note m = match_record_dedup [OF d t Cons.prems, of pf L r]
  have l: "length (ids_left (match_record pf opt L r s)) = nat (tablesize opt)"
    using Cons.prems(1) by simp
  from Cons.IH [OF l m(1) m(2) m(3) m(4)] m(5) show ?case by simp
qed

lemma printed_unprinted_length:
  "length (filter printed xs) + length (unprinted xs) = length xs"
  unfolding unprinted_def by (rule sum_length_filter_compl)

lemma matched_counts:
  assumes d: "deduplicate opt" and t: "0 < tablesize opt"
  shows "left_paired_counter (matched pf opt wl wr buf lrecs rrecs)
           + int (length (unprinted (concat (ids_left (matched pf opt wl wr buf lrecs rrecs)))))
           + left_duplicates_counter (matched pf opt wl wr buf lrecs rrecs) = int (length lrecs)"
    and "right_count (matched pf opt wl wr buf lrecs rrecs) = int (length rrecs)"
proof -
  let ?i = "init_locals opt wl wr buf"
  let ?s0 = "index_records pf opt lrecs ?i"
  let ?s1 = "indexed pf opt wl wr buf lrecs"
  let ?s2 = "matched pf opt wl wr buf lrecs rrecs"
  have i: "length (ids_left ?i) = nat (tablesize opt)" "chains_distinct (ids_left ?i)"
    "n_printed (ids_left ?i) = 0" "length (concat (ids_left ?i)) = 0"
    "left_duplicates_counter ?i = 0"
    by (simp_all add: init_locals_def chains_distinct_def n_printed_def)
  from index_records_dedup [OF d t i(1,2,3), of pf lrecs]
  have cd: "chains_distinct (ids_left ?s0)" and np: "n_printed (ids_left ?s0) = 0"
    by simp_all
  from index_records_entries [OF t i(1), of pf lrecs] i(4,5)
  have en: "int (length (concat (ids_left ?s0))) + left_duplicates_counter ?s0 = int (length lrecs)"
    by simp
  have s1: "ids_left ?s1 = ids_left ?s0" "left_duplicates_counter ?s1 = left_duplicates_counter ?s0"
    by (simp_all add: indexed_def)
  have l1: "length (ids_left ?s1) = nat (tablesize opt)" by simp
  have r1: "length (ids_right ?s1) = nat (tablesize opt)" using d by simp
  have c1: "chains_distinct (ids_left ?s1)" using cd by (simp add: s1)
  have p1: "left_paired_counter ?s1 = int (n_printed (ids_left ?s1))"
    using np by (simp add: s1)
  have m1: "marks_seen opt ?s1"
  proof -
    have "\<not> printed e" if "e \<in> set (ids_left ?s0 ! b)" and "b < nat (tablesize opt)" for e b
    proof
      assume "printed e"
      from that have "ids_left ?s0 ! b \<in> set (ids_left ?s0)" by (simp add: i(1))
      with that(1) have "e \<in> set (concat (ids_left ?s0))" by auto
      with \<open>printed e\<close> have "filter printed (concat (ids_left ?s0)) \<noteq> []"
        by (auto simp: filter_empty_conv)
      with np show False by (simp add: n_printed_def)
    qed
    then show ?thesis by (auto simp: marks_seen_def s1)
  qed
  from match_records_dedup [OF d t l1 r1 c1 m1 p1, of pf "file_of lrecs" rrecs]
  have lp: "left_paired_counter ?s2 = int (n_printed (ids_left ?s2))"
    and lc: "length (concat (ids_left ?s2)) = length (concat (ids_left ?s0))"
    by (simp_all add: matched_def s1)
  have ld: "left_duplicates_counter ?s2 = left_duplicates_counter ?s0"
    by (simp add: matched_def s1)
  from printed_unprinted_length [of "concat (ids_left ?s2)"]
  have "int (n_printed (ids_left ?s2)) + int (length (unprinted (concat (ids_left ?s2))))
      = int (length (concat (ids_left ?s2)))"
    by (simp add: n_printed_def)
  with lp lc ld en
  show "left_paired_counter ?s2 + int (length (unprinted (concat (ids_left ?s2))))
           + left_duplicates_counter ?s2 = int (length lrecs)"
    by simp
  have "right_count ?s1 = 0" by (simp add: right_count_def)
  then show "right_count ?s2 = int (length rrecs)"
    by (simp add: matched_def match_records_right_count)
qed

lemma pair_files_counts:
  assumes wl: "\<forall>l \<in> set lrecs. wf_record pf opt l" and wr: "\<forall>r \<in> set rrecs. wf_record pf opt r"
    and d: "deduplicate opt" and t: "0 < tablesize opt" and nb: "null_buckets opt wl wr"
  shows "\<exists>res. pair_files pf opt wl wr buf (file_of lrecs) (file_of rrecs) = Inr res
     \<and> n_left_paired res + n_left_single res + n_left_duplicates res = int (length lrecs)
     \<and> n_right_paired res + n_right_single res + n_right_duplicates res = int (length rrecs)"
proof -
  let ?L = "file_of lrecs"
  let ?s2 = "matched pf opt wl wr buf lrecs rrecs"
  let ?res = "report (emit_table pf opt ?L (ids_left ?s2) ?s2)"
  have run: "pair_files pf opt wl wr buf ?L (file_of rrecs) = Inr ?res"
    using wl wr t nb by (rule pair_files_records)
  have ls: "left_single_counter ?s2 = 0" by (simp add: matched_def)
  note c = matched_counts [OF d t, of pf wl wr buf lrecs rrecs]
  have l: "n_left_paired ?res + n_left_single ?res + n_left_duplicates ?res = int (length lrecs)"
    using c(1) ls by (simp add: report_def emit_table_count)
  have r: "n_right_paired ?res + n_right_single ?res + n_right_duplicates ?res = int (length rrecs)"
    using c(2) by (simp add: report_def right_count_def)
  show ?thesis
    by (rule exI [of _ ?res]) (intro conjI run l r)
qed
lemma clear_wild_sel [simp]:
  "wild_left (clear_wild s) = all_null" "wild_right (clear_wild s) = all_null"
  "line (clear_wild s) = line s" "lfp (clear_wild s) = lfp s" "rfp (clear_wild s) = rfp s"
  "ids_left (clear_wild s) = ids_left s" "ids_right (clear_wild s) = ids_right s"
  "nextposition (clear_wild s) = nextposition s"
  "left_single (clear_wild s) = left_single s"
  "left_single_counter (clear_wild s) = left_single_counter s"
  by (simp_all add: clear_wild_def)

lemma clear_wild_update:
  "clear_wild (s\<lparr>line := l, lfp := p\<rparr>) = (clear_wild s)\<lparr>line := l, lfp := p\<rparr>"
  "clear_wild (s\<lparr>line := l, rfp := p\<rparr>) = (clear_wild s)\<lparr>line := l, rfp := p\<rparr>"
  "clear_wild (s\<lparr>nextposition := q\<rparr>) = (clear_wild s)\<lparr>nextposition := q\<rparr>"
  by (simp_all add: clear_wild_def)

lemma left_record_clear:
  "left_record pf opt L s = Inr s' \<Longrightarrow> left_record pf opt L (clear_wild s) = Inr (clear_wild s')"
  unfolding left_record_def Let_def
  by (auto simp add: clear_wild_def all_null_def simp del: skip_lines.simps
      split: sum.splits if_splits)

lemma right_record_clear:
  "right_record pf opt L R s = Inr s' \<Longrightarrow>
   right_record pf opt L R (clear_wild s) = Inr (clear_wild s')"
  unfolding right_record_def emit_left_mate_def emit_right_mate_def Let_def
  by (auto simp add: clear_wild_def all_null_def
      simp del: skip_lines.simps right_lines.simps left_lines.simps
      split: sum.splits if_splits)

lemma left_loop_clear:
  "left_loop pf opt L s = Inr s' \<Longrightarrow> left_loop pf opt L (clear_wild s) = Inr (clear_wild s')"
proof (induction pf opt L s rule: left_loop.induct)
  case (1 pf opt L s)
  show ?case
  proof (cases "fgets (MAXLINELEN pf) L (lfp s)")
    case None
    with "1.prems" have "s' = s" by (simp add: left_loop.simps [of pf opt L s])
    with None show ?thesis by (simp add: left_loop.simps [of pf opt L "clear_wild s"])
  next
    case (Some x)
    obtain l p where x: "x = (l, p)" by (cases x)
    from "1.prems" Some x obtain s1 where
      s1: "left_record pf opt L (s\<lparr>line := l, lfp := p\<rparr>) = Inr s1"
      and loop: "left_loop pf opt L s1 = Inr s'"
      by (auto simp: left_loop.simps [of pf opt L s] split: sum.splits)
    from left_record_clear [OF s1]
    have c: "left_record pf opt L ((clear_wild s)\<lparr>line := l, lfp := p\<rparr>) = Inr (clear_wild s1)"
      by (simp add: clear_wild_update)
    from "1.IH" [OF Some x [symmetric] s1 loop]
    have "left_loop pf opt L (clear_wild s1) = Inr (clear_wild s')" .
    with Some x c show ?thesis
      by (simp add: left_loop.simps [of pf opt L "clear_wild s"])
  qed
qed

lemma right_loop_clear:
  "right_loop pf opt L R s = Inr s' \<Longrightarrow>
   right_loop pf opt L R (clear_wild s) = Inr (clear_wild s')"
proof (induction pf opt L R s rule: right_loop.induct)
  case (1 pf opt L R s)
  show ?case
  proof (cases "fgets (MAXLINELEN pf) R (rfp s)")
    case None
    with "1.prems" have "s' = s" by (simp add: right_loop.simps [of pf opt L R s])
    with None show ?thesis by (simp add: right_loop.simps [of pf opt L R "clear_wild s"])
  next
    case (Some x)
    obtain l p where x: "x = (l, p)" by (cases x)
    from "1.prems" Some x obtain s1 where
      s1: "right_record pf opt L R (s\<lparr>line := l, rfp := p\<rparr>) = Inr s1"
      and loop: "right_loop pf opt L R s1 = Inr s'"
      by (auto simp: right_loop.simps [of pf opt L R s] split: sum.splits)
    from right_record_clear [OF s1]
    have c: "right_record pf opt L R ((clear_wild s)\<lparr>line := l, rfp := p\<rparr>) = Inr (clear_wild s1)"
      by (simp add: clear_wild_update)
    from "1.IH" [OF Some x [symmetric] s1 loop]
    have "right_loop pf opt L R (clear_wild s1) = Inr (clear_wild s')" .
    with Some x c show ?thesis
      by (simp add: right_loop.simps [of pf opt L R "clear_wild s"])
  qed
qed

lemma emit_chain_clear:
  "emit_chain pf opt L chain (clear_wild s) = clear_wild (emit_chain pf opt L chain s)"
proof (induction chain arbitrary: s)
  case Nil
  show ?case by simp
next
  case (Cons ptr rest)
  show ?case
  proof (cases "printed ptr")
    case True
    with Cons.IH [of s] show ?thesis by simp
  next
    case False
    let ?lst = "left_lines 4 0 (MAXLINELEN pf) L (formatid opt) (id_str ptr)
                  ((nat (pos ptr), line s), left_single s)"
    let ?u = "s\<lparr>line := snd (fst ?lst), lfp := fst (fst ?lst), left_single := snd ?lst,
                 left_single_counter := left_single_counter s + 1\<rparr>"
    let ?v = "(clear_wild s)\<lparr>line := snd (fst ?lst), lfp := fst (fst ?lst),
                 left_single := snd ?lst,
                 left_single_counter := left_single_counter s + 1\<rparr>"
    have u: "?v = clear_wild ?u" by (simp add: clear_wild_def)
    have "emit_chain pf opt L (ptr # rest) (clear_wild s) = emit_chain pf opt L rest ?v"
      using False by (simp add: Let_def del: left_lines.simps)
    also have "\<dots> = emit_chain pf opt L rest (clear_wild ?u)"
      by (simp only: u)
    also have "\<dots> = clear_wild (emit_chain pf opt L rest ?u)"
      by (rule Cons.IH)
    also have "\<dots> = clear_wild (emit_chain pf opt L (ptr # rest) s)"
      using False by (simp add: Let_def del: left_lines.simps)
    finally show ?thesis .
  qed
qed

lemma emit_table_clear:
  "emit_table pf opt L tbl (clear_wild s) = clear_wild (emit_table pf opt L tbl s)"
  by (induction tbl arbitrary: s) (simp_all add: emit_chain_clear)

lemma report_clear: "report (clear_wild s) = report s"
  by (simp add: report_def clear_wild_def)

lemma pair_files_clear:
  assumes "pair_files pf opt wl wr buf L R = Inr res"
  shows "pair_files pf opt all_null all_null buf L R = Inr res"
proof -
  from assms obtain s1 s2 where t: "\<not> tablesize opt < 0"
    and s1: "left_loop pf opt L (init_locals opt wl wr buf) = Inr s1"
    and s2: "right_loop pf opt L R (s1\<lparr>nextposition := 0\<rparr>) = Inr s2"
    and r: "res = report (emit_table pf opt L (ids_left s2) s2)"
    by (auto simp: pair_files_def sweep_def split: if_splits sum.splits)
  have i: "init_locals opt all_null all_null buf = clear_wild (init_locals opt wl wr buf)"
    by (simp add: init_locals_def clear_wild_def)
  from left_loop_clear [OF s1]
  have c1: "left_loop pf opt L (init_locals opt all_null all_null buf) = Inr (clear_wild s1)"
    by (simp add: i)
  from right_loop_clear [OF s2]
  have c2: "right_loop pf opt L R ((clear_wild s1)\<lparr>nextposition := 0\<rparr>) = Inr (clear_wild s2)"
    by (simp add: clear_wild_update)
  have n: "\<not> list_ex all_null xs" for xs :: "nat list"
    by (simp add: list_ex_iff all_null_def)
  have c3: "sweep pf opt L (clear_wild s2)
      = Inr (clear_wild (emit_table pf opt L (ids_left s2) s2))"
    by (simp add: sweep_def n emit_table_clear del: emit_table.simps)
  from t show ?thesis
    by (simp add: pair_files_def c1 c2 c3 report_clear r del: emit_table.simps)
qed

lemma null_buckets_all_null: "null_buckets opt all_null all_null"
  by (simp add: null_buckets_def list_all_iff all_null_def)

text \<open>
  C10: with duplicate tracking and well-formed input (each file a sequence of well-formed
  records, a positive table size), a run that returns a result has counted every record
  once: the paired, single and duplicate counters of the first file add up to the number of
  its records, and those of the second file to the number of its records. When the fresh
  bucket arrays hold null pointers the run does return a result.
\<close>

theorem counters_account_for_records:
  assumes wl: "\<forall>l \<in> set lrecs. wf_record pf opt l" and wr: "\<forall>r \<in> set rrecs. wf_record pf opt r"
    and d: "deduplicate opt" and t: "0 < tablesize opt"
  shows "(pair_files pf opt wl wr buf (file_of lrecs) (file_of rrecs) = Inr res \<longrightarrow>
           n_left_paired res + n_left_single res + n_left_duplicates res = int (length lrecs)
           \<and> n_right_paired res + n_right_single res + n_right_duplicates res
               = int (length rrecs))
       \<and> (null_buckets opt wl wr \<longrightarrow>
            (\<exists>res'. pair_files pf opt wl wr buf (file_of lrecs) (file_of rrecs) = Inr res'))"
proof (intro conjI impI)
  assume "pair_files pf opt wl wr buf (file_of lrecs) (file_of rrecs) = Inr res"
  then have c: "pair_files pf opt all_null all_null buf (file_of lrecs) (file_of rrecs) = Inr res"
    by (rule pair_files_clear)
  from pair_files_counts [OF wl wr d t null_buckets_all_null, of buf] c
  show "n_left_paired res + n_left_single res + n_left_duplicates res = int (length lrecs)"
    and "n_right_paired res + n_right_single res + n_right_duplicates res = int (length rrecs)"
    by auto
next
  assume "null_buckets opt wl wr"
  from pair_files_counts [OF wl wr d t this, of buf]
  show "\<exists>res'. pair_files pf opt wl wr buf (file_of lrecs) (file_of rrecs) = Inr res'"
    by blast
qed

theorem counters_account_for_records_witness:
  "\<exists>res. pair_files \<lparr>MAXLINELEN = 100, char_signed = True\<rparr>
       \<lparr>tablesize = 3, deduplicate = True, splitspace = False, formatid = False\<rparr>
       (\<lambda>b. False) (\<lambda>b. False) []
       (file_of [[''@A/1\<newline>'', ''AC\<newline>'', ''+\<newline>'', ''II\<newline>''],
                 [''@B/1\<newline>'', ''GG\<newline>'', ''+\<newline>'', ''JJ\<newline>''],
                 [''@A/1\<newline>'', ''AA\<newline>'', ''+\<newline>'', ''HH\<newline>'']])
       (file_of [[''@A/2\<newline>'', ''TT\<newline>'', ''+\<newline>'', ''KK\<newline>''],
                 [''@C/2\<newline>'', ''CC\<newline>'', ''+\<newline>'', ''LL\<newline>'']]) = Inr res
     \<and> n_left_paired res + n_left_single res + n_left_duplicates res = 3
     \<and> n_right_paired res + n_right_single res + n_right_duplicates res = 2"
proof -
  let ?pf = "\<lparr>MAXLINELEN = 100, char_signed = True\<rparr>"
  let ?opt = "\<lparr>tablesize = 3, deduplicate = True, splitspace = False, formatid = False\<rparr>"
  let ?nw = "\<lambda>b::nat. False"
  let ?ls = "[[''@A/1\<newline>'', ''AC\<newline>'', ''+\<newline>'', ''II\<newline>''],
              [''@B/1\<newline>'', ''GG\<newline>'', ''+\<newline>'', ''JJ\<newline>''],
              [''@A/1\<newline>'', ''AA\<newline>'', ''+\<newline>'', ''HH\<newline>'']]"
  let ?rs = "[[''@A/2\<newline>'', ''TT\<newline>'', ''+\<newline>'', ''KK\<newline>''],
              [''@C/2\<newline>'', ''CC\<newline>'', ''+\<newline>'', ''LL\<newline>'']]"
  have wl: "\<forall>l \<in> set ?ls. wf_record ?pf ?opt l" by code_simp
  have wr: "\<forall>r \<in> set ?rs. wf_record ?pf ?opt r" by code_simp
  have d: "deduplicate ?opt" and t: "0 < tablesize ?opt" by simp_all
  have nb: "null_buckets ?opt ?nw ?nw" by (simp add: null_buckets_def list_all_iff)
  from counters_account_for_records [OF wl wr d t, of ?nw ?nw "[]", THEN conjunct2, THEN mp, OF nb]
  obtain res' where r: "pair_files ?pf ?opt ?nw ?nw [] (file_of ?ls) (file_of ?rs) = Inr res'"
    by blast
  from counters_account_for_records [OF wl wr d t, of ?nw ?nw "[]" res', THEN conjunct1, THEN mp, OF r]
  have "n_left_paired res' + n_left_single res' + n_left_duplicates res' = int (length ?ls)"
    and "n_right_paired res' + n_right_single res' + n_right_duplicates res' = int (length ?rs)"
    by simp_all
  with r show ?thesis
    by (intro exI [of _ res']) simp
qed

end
